theory Spec2Isabelle
  imports Main
begin

section \<open>Hook context (pkg/hook/context.go)\<close>

text \<open>
  \<open>EventType\<close> and \<open>ToolType\<close> are Go string types with named constants, so any
  string can occur in a context; they are modelled as strings. The raw JSON messages of
  \<open>Additional\<close> are byte strings.
\<close>

type_synonym EventType = string
type_synonym ToolType = string

definition PreToolUse :: EventType where "PreToolUse = ''PreToolUse''"
definition PostToolUse :: EventType where "PostToolUse = ''PostToolUse''"
definition Notification :: EventType where "Notification = ''Notification''"

definition Bash :: ToolType where "Bash = ''Bash''"
definition Write :: ToolType where "Write = ''Write''"
definition Edit :: ToolType where "Edit = ''Edit''"
definition MultiEdit :: ToolType where "MultiEdit = ''MultiEdit''"

record ToolInput =
  Command :: string
  FilePath :: string
  Path :: string
  Content :: string
  OldString :: string
  NewString :: string
  Pattern :: string
  Additional :: "string \<rightharpoonup> string"

record Context =
  EventType :: EventType
  ToolName :: ToolType
  ToolInput :: ToolInput
  NotificationType :: string
  RawJSON :: string

definition GetCommand :: "Context \<Rightarrow> string" where
  "GetCommand c = Command (ToolInput c)"

definition GetFilePath :: "Context \<Rightarrow> string" where
  "GetFilePath c =
     (if FilePath (ToolInput c) \<noteq> [] then FilePath (ToolInput c) else Path (ToolInput c))"

definition GetContent :: "Context \<Rightarrow> string" where
  "GetContent c = Content (ToolInput c)"

definition IsBashTool :: "Context \<Rightarrow> bool" where
  "IsBashTool c = (ToolName c = Bash)"

definition IsFileTool :: "Context \<Rightarrow> bool" where
  "IsFileTool c = (ToolName c = Write \<or> ToolName c = Edit \<or> ToolName c = MultiEdit)"

text \<open>An empty tool input and a Bash context carrying one command, for concrete runs.\<close>

definition emptyInput :: ToolInput where
  "emptyInput = \<lparr>Command = [], FilePath = [], Path = [], Content = [], OldString = [],
     NewString = [], Pattern = [], Additional = Map.empty\<rparr>"

definition bashContext :: "string \<Rightarrow> Context" where
  "bashContext cmd = \<lparr>EventType = PreToolUse, ToolName = Bash,
     ToolInput = emptyInput\<lparr>Command := cmd\<rparr>, NotificationType = [], RawJSON = []\<rparr>"

definition fileContext :: "string \<Rightarrow> string \<Rightarrow> Context" where
  "fileContext fp p = \<lparr>EventType = PreToolUse, ToolName = Write,
     ToolInput = emptyInput\<lparr>FilePath := fp, Path := p\<rparr>, NotificationType = [], RawJSON = []\<rparr>"


section \<open>Validator results and the registry\<close>

text \<open>
  The dispatcher reads four fields of a validator's result: \<open>Passed\<close>, \<open>Message\<close>,
  \<open>Details\<close> and \<open>ShouldBlock\<close>. A validator is the interface with \<open>Name()\<close> and
  \<open>Validate(ctx)\<close>; a validator is taken to return a result (not a nil pointer) that
  depends on the context only.
\<close>

record Result =
  Passed :: bool
  Message :: string
  Details :: "string \<rightharpoonup> string"
  ShouldBlock :: bool

record Validator =
  ValidatorName :: string
  Validate :: "Context \<Rightarrow> Result"

text \<open>
  Modelled from the spec: the registry (package \<open>internal/validator\<close>) is not among the
  sources. It holds the registered validators, each with an applicability predicate
  over event type, tool name and notification type; \<open>FindValidators\<close> returns those
  whose predicate matches, in registration order, and the empty sequence when none does.
\<close>

record Registration =
  Predicate :: "EventType \<Rightarrow> ToolType \<Rightarrow> string \<Rightarrow> bool"
  Registered :: Validator

type_synonym Registry = "Registration list"

definition applies :: "Context \<Rightarrow> Registration \<Rightarrow> bool" where
  "applies ctx r = Predicate r (EventType ctx) (ToolName ctx) (NotificationType ctx)"

definition FindValidators :: "Registry \<Rightarrow> Context \<Rightarrow> Validator list" where
  "FindValidators reg ctx = map Registered (filter (applies ctx) reg)"


section \<open>Dispatcher (internal/dispatcher/dispatcher.go)\<close>

record ValidationError =
  Validator :: string
  ErrMessage :: string
  ErrDetails :: "string \<rightharpoonup> string"
  ErrShouldBlock :: bool

text \<open>
  The loop of \<open>Dispatch\<close>: one validator per iteration, the slice of errors threaded
  through as an accumulator and extended by \<open>append\<close>. The logger calls do not influence
  the returned slice and are left out. A nil slice and an empty slice are both \<open>[]\<close>.
\<close>

fun dispatchLoop :: "Context \<Rightarrow> Validator list \<Rightarrow> ValidationError list \<Rightarrow> ValidationError list" where
  "dispatchLoop ctx [] validationErrors = validationErrors"
| "dispatchLoop ctx (v # vs) validationErrors =
     (let result = Validate v ctx in
      if Passed result then dispatchLoop ctx vs validationErrors
      else dispatchLoop ctx vs
             (validationErrors @
                [\<lparr>Validator = ValidatorName v, ErrMessage = Message result,
                  ErrDetails = Details result, ErrShouldBlock = ShouldBlock result\<rparr>]))"

definition Dispatch :: "Registry \<Rightarrow> Context \<Rightarrow> ValidationError list" where
  "Dispatch registry ctx =
     (let validators = FindValidators registry ctx in
      if length validators = 0 then [] else dispatchLoop ctx validators [])"

fun dispatcher_ShouldBlock :: "ValidationError list \<Rightarrow> bool" where
  "dispatcher_ShouldBlock [] = False"
| "dispatcher_ShouldBlock (err # errors) =
     (if ErrShouldBlock err then True else dispatcher_ShouldBlock errors)"

text \<open>The error a failing validator contributes, as the claims describe it.\<close>

definition errorOf :: "Context \<Rightarrow> Validator \<Rightarrow> ValidationError" where
  "errorOf ctx v = \<lparr>Validator = ValidatorName v, ErrMessage = Message (Validate v ctx),
     ErrDetails = Details (Validate v ctx), ErrShouldBlock = ShouldBlock (Validate v ctx)\<rparr>"

definition failing :: "Context \<Rightarrow> Validator \<Rightarrow> bool" where
  "failing ctx v = (\<not> Passed (Validate v ctx))"

text \<open>Three fixed validators and a registry of them, for concrete runs.\<close>

definition blocker :: Validator where
  "blocker = \<lparr>ValidatorName = ''blocker'',
     Validate = (\<lambda>ctx. \<lparr>Passed = False, Message = ''blocked'', Details = Map.empty,
                         ShouldBlock = True\<rparr>)\<rparr>"

definition warner :: Validator where
  "warner = \<lparr>ValidatorName = ''warner'',
     Validate = (\<lambda>ctx. \<lparr>Passed = False, Message = ''warned'', Details = Map.empty,
                         ShouldBlock = False\<rparr>)\<rparr>"

definition passer :: Validator where
  "passer = \<lparr>ValidatorName = ''passer'',
     Validate = (\<lambda>ctx. \<lparr>Passed = True, Message = [], Details = Map.empty,
                         ShouldBlock = False\<rparr>)\<rparr>"

definition onBash :: "EventType \<Rightarrow> ToolType \<Rightarrow> string \<Rightarrow> bool" where
  "onBash e t n = (e = PreToolUse \<and> t = Bash)"

definition sampleRegistry :: Registry where
  "sampleRegistry =
     [\<lparr>Predicate = onBash, Registered = blocker\<rparr>,
      \<lparr>Predicate = onBash, Registered = passer\<rparr>,
      \<lparr>Predicate = onBash, Registered = warner\<rparr>]"


section \<open>Shell tokenizer and git command model (package pkg/parser)\<close>

text \<open>
  The validators see a parsed command as a name and its arguments: the add validator
  tests \<open>cmd.Name != "git"\<close> and then \<open>cmd.Args[0] != "add"\<close>, so \<open>Args\<close> holds the
  tokens after the command name.
\<close>

record Command =
  Name :: string
  Args :: "string list"

record ParseResult =
  Commands :: "Command list"

datatype ParseError = UnterminatedQuote | TrailingBackslash

text \<open>
  The text of a parse error as \<open>%v\<close> prints it. The wording of the two texts is not
  fixed by the specification; no property below depends on it.
\<close>

fun ErrorText :: "ParseError \<Rightarrow> string" where
  "ErrorText UnterminatedQuote = ''unterminated quote''"
| "ErrorText TrailingBackslash = ''trailing backslash''"

definition squote :: char where "squote = CHR 0x27"
definition dquote :: char where "dquote = CHR 0x22"
definition backslash :: char where "backslash = CHR 0x5C"

definition isSpace :: "char \<Rightarrow> bool" where
  "isSpace c = (c = CHR '' '' \<or> c = CHR 0x09 \<or> c = CHR 0x0A \<or> c = CHR 0x0D)"

datatype Quoting = Unquoted | SingleQuoted | DoubleQuoted

text \<open>
  The scanner's state: the quoting mode, the token under construction (\<open>None\<close> between
  tokens, so that an empty quoted token is still a token), the tokens of the command
  under construction, and the commands completed so far.
\<close>

definition addChar :: "char \<Rightarrow> string option \<Rightarrow> string option" where
  "addChar c cur = Some (case cur of None \<Rightarrow> [c] | Some t \<Rightarrow> t @ [c])"

definition openToken :: "string option \<Rightarrow> string option" where
  "openToken cur = Some (case cur of None \<Rightarrow> [] | Some t \<Rightarrow> t)"

definition endToken :: "string option \<Rightarrow> string list \<Rightarrow> string list" where
  "endToken cur toks = (case cur of None \<Rightarrow> toks | Some t \<Rightarrow> toks @ [t])"

definition endCommand :: "string list \<Rightarrow> Command list \<Rightarrow> Command list" where
  "endCommand toks cmds =
     (case toks of [] \<Rightarrow> cmds | n # as \<Rightarrow> cmds @ [\<lparr>Name = n, Args = as\<rparr>])"

text \<open>
  Modelled from the spec: the tokenizer \<open>Parse\<close> is not among the sources. It scans
  the raw string left to right, tracking quote and escape state. Inside single quotes
  every character up to the closing quote is literal; inside double quotes a backslash
  makes the next character literal. Outside quotes a backslash escapes the next
  character, whitespace separates tokens, and \<open>&&\<close>, \<open>||\<close>, \<open>;\<close> and \<open>|\<close> end the
  current command. A segment without tokens yields no command. An unterminated quote or
  a trailing backslash is an error and no commands are returned.
\<close>

fun scan :: "Quoting \<Rightarrow> string option \<Rightarrow> string list \<Rightarrow> Command list \<Rightarrow> string
    \<Rightarrow> ParseError + Command list" where
  "scan Unquoted cur toks cmds [] = Inr (endCommand (endToken cur toks) cmds)"
| "scan SingleQuoted cur toks cmds [] = Inl UnterminatedQuote"
| "scan DoubleQuoted cur toks cmds [] = Inl UnterminatedQuote"
| "scan SingleQuoted cur toks cmds (c # cs) =
     (if c = squote then scan Unquoted cur toks cmds cs
      else scan SingleQuoted (addChar c cur) toks cmds cs)"
| "scan DoubleQuoted cur toks cmds (c # cs) =
     (if c = dquote then scan Unquoted cur toks cmds cs
      else if c = backslash then
        (case cs of
           [] \<Rightarrow> Inl TrailingBackslash
         | d # ds \<Rightarrow> scan DoubleQuoted (addChar d cur) toks cmds ds)
      else scan DoubleQuoted (addChar c cur) toks cmds cs)"
| "scan Unquoted cur toks cmds (c # cs) =
     (if c = backslash then
        (case cs of
           [] \<Rightarrow> Inl TrailingBackslash
         | d # ds \<Rightarrow> scan Unquoted (addChar d cur) toks cmds ds)
      else if c = squote then scan SingleQuoted (openToken cur) toks cmds cs
      else if c = dquote then scan DoubleQuoted (openToken cur) toks cmds cs
      else if isSpace c then scan Unquoted None (endToken cur toks) cmds cs
      else if c = CHR '';'' then scan Unquoted None [] (endCommand (endToken cur toks) cmds) cs
      else if c = CHR ''&'' \<and> cs \<noteq> [] \<and> hd cs = CHR ''&''
        then scan Unquoted None [] (endCommand (endToken cur toks) cmds) (tl cs)
      else if c = CHR ''|'' then
        (if cs \<noteq> [] \<and> hd cs = CHR ''|''
         then scan Unquoted None [] (endCommand (endToken cur toks) cmds) (tl cs)
         else scan Unquoted None [] (endCommand (endToken cur toks) cmds) cs)
      else scan Unquoted (addChar c cur) toks cmds cs)"

text \<open>
  Modelled from the spec: \<open>Parse\<close> runs the scanner from the start of the raw string
  and returns the commands in a \<open>ParseResult\<close>, or the error and no result.
\<close>

definition Parse :: "string \<Rightarrow> ParseError + ParseResult" where
  "Parse raw =
     (case scan Unquoted None [] [] raw of
        Inl err \<Rightarrow> Inl err
      | Inr cmds \<Rightarrow> Inr \<lparr>Commands = cmds\<rparr>)"

record GitCommand =
  Subcommand :: string
  Flags :: "string list"
  GitArgs :: "string list"

datatype GitParseError = NotGitCommand | NoSubcommand

text \<open>
  Modelled from the spec: the table of flags that take a value, per subcommand. The
  specification names \<open>-b\<close> for \<open>checkout\<close> and \<open>--chmod\<close> for \<open>add\<close>; a flag it does
  not list consumes no value.
\<close>

definition takesValue :: "string \<Rightarrow> string \<Rightarrow> bool" where
  "takesValue subcommand flag =
     ((subcommand = ''checkout'' \<and> flag = ''-b'') \<or> (subcommand = ''add'' \<and> flag = ''--chmod''))"

definition isFlag :: "string \<Rightarrow> bool" where
  "isFlag tok = (case tok of [] \<Rightarrow> False | c # cs \<Rightarrow> c = CHR ''-'')"

text \<open>
  Modelled from the spec: the git command extractor (\<open>ParseGitCommand\<close> in the
  sources' calls) is not among the sources. The subcommand is the first argument. In the
  rest, a token starting with \<open>-\<close> is a flag; a flag that takes a value is followed in
  \<open>flags\<close> by the next token (the form the branch validator reads back with
  \<open>Flags[i+1]\<close>), and stands alone when it is the last token; every other token is a
  positional argument. The extractor fails when the command is not \<open>git\<close> or has no
  arguments.
\<close>

fun walkArgs :: "string \<Rightarrow> string list \<Rightarrow> string list \<times> string list" where
  "walkArgs sub [] = ([], [])"
| "walkArgs sub (tok # rest) =
     (if isFlag tok then
        (if takesValue sub tok then
           (case rest of
              [] \<Rightarrow> ([tok], [])
            | v # rest' \<Rightarrow> (case walkArgs sub rest' of (fs, as) \<Rightarrow> (tok # v # fs, as)))
         else (case walkArgs sub rest of (fs, as) \<Rightarrow> (tok # fs, as)))
      else (case walkArgs sub rest of (fs, as) \<Rightarrow> (fs, tok # as)))"

text \<open>
  Modelled from the spec: \<open>ParseGitCommand\<close> fails on a command whose name is not
  \<open>git\<close> or that has no argument; otherwise the first argument is the subcommand and
  the walk over the rest gives the flags and the positional arguments.
\<close>

definition ParseGitCommand :: "Command \<Rightarrow> GitParseError + GitCommand" where
  "ParseGitCommand cmd =
     (if Name cmd \<noteq> ''git'' then Inl NotGitCommand
      else case Args cmd of
        [] \<Rightarrow> Inl NoSubcommand
      | sub # rest \<Rightarrow>
          (case walkArgs sub rest of
             (fs, as) \<Rightarrow> Inr \<lparr>Subcommand = sub, Flags = fs, GitArgs = as\<rparr>))"

text \<open>
  Modelled from the spec: \<open>HasFlag\<close> is an exact, case-sensitive match of the token
  against the recorded flags.
\<close>

definition HasFlag :: "GitCommand \<Rightarrow> string \<Rightarrow> bool" where
  "HasFlag gitCmd flag = (flag \<in> set (Flags gitCmd))"


section \<open>Validator results (package internal/validator)\<close>

text \<open>
  Modelled from the spec: the constructors of results (package \<open>internal/validator\<close>)
  are not among the sources. \<open>Pass\<close> is the passing result.
\<close>

definition Pass :: Result where
  "Pass = \<lparr>Passed = True, Message = [], Details = Map.empty, ShouldBlock = False\<rparr>"

text \<open>Modelled from the spec: \<open>Fail\<close> is the blocking failure with a message.\<close>

definition Fail :: "string \<Rightarrow> Result" where
  "Fail msg = \<lparr>Passed = False, Message = msg, Details = Map.empty, ShouldBlock = True\<rparr>"

text \<open>
  Modelled from the spec: \<open>Warn\<close> is the non-blocking failure (\<open>passed = false\<close>,
  \<open>shouldBlock = false\<close>) that a validator degrades to on a parse failure.
\<close>

definition Warn :: "string \<Rightarrow> Result" where
  "Warn msg = \<lparr>Passed = False, Message = msg, Details = Map.empty, ShouldBlock = False\<rparr>"

text \<open>Modelled from the spec: \<open>AddDetail\<close> adds one entry to the details of a result.\<close>

definition AddDetail :: "Result \<Rightarrow> string \<Rightarrow> string \<Rightarrow> Result" where
  "AddDetail r k v = r\<lparr>Details := (Details r)(k \<mapsto> v)\<rparr>"

text \<open>
  A run-time panic of the Go code is a value of the model: indexing a slice is checked,
  and every function that indexes returns \<open>Panic + result\<close>.
\<close>

datatype Panic = IndexOutOfRange

definition at :: "'a list \<Rightarrow> nat \<Rightarrow> Panic + 'a" where
  "at xs i = (if i < length xs then Inr (xs ! i) else Inl IndexOutOfRange)"

definition nl :: string where "nl = [CHR 0x0A]"


section \<open>Branch name validator (internal/validators/git, BranchValidator)\<close>

definition minBranchParts :: nat where "minBranchParts = 2"

definition protectedBranches :: "string \<Rightarrow> bool" where
  "protectedBranches name = (name = ''main'' \<or> name = ''master'')"

definition validBranchTypeKeys :: "string list" where
  "validBranchTypeKeys =
     [''feat'', ''fix'', ''docs'', ''style'', ''refactor'', ''test'', ''chore'', ''ci'',
      ''build'', ''perf'']"

definition validBranchTypes :: "string \<Rightarrow> bool" where
  "validBranchTypes t = (t \<in> set validBranchTypeKeys)"

text \<open>The pattern \<open>^[a-z]+/[a-z0-9-]+$\<close>: the character classes and the match.\<close>

definition isLowerLetter :: "char \<Rightarrow> bool" where
  "isLowerLetter c = (97 \<le> (of_char c :: nat) \<and> (of_char c :: nat) \<le> 122)"

definition isDigit :: "char \<Rightarrow> bool" where
  "isDigit c = (48 \<le> (of_char c :: nat) \<and> (of_char c :: nat) \<le> 57)"

definition branchNamePattern :: "string \<Rightarrow> bool" where
  "branchNamePattern s =
     (takeWhile isLowerLetter s \<noteq> [] \<and>
      (case dropWhile isLowerLetter s of
         [] \<Rightarrow> False
       | c # d \<Rightarrow> c = CHR ''/'' \<and> d \<noteq> [] \<and>
           list_all (\<lambda>x. isLowerLetter x \<or> isDigit x \<or> x = CHR ''-'') d))"

text \<open>
  \<open>strings.ToLower\<close> is a function of the Go library that lowers every Unicode
  upper-case letter; the validator takes it as the parameter \<open>toLower\<close>. On a string of
  ASCII bytes its value is \<open>asciiToLower\<close>, with which the model runs on ASCII command
  lines.
\<close>

definition toLowerChar :: "char \<Rightarrow> char" where
  "toLowerChar c =
     (if 65 \<le> (of_char c :: nat) \<and> (of_char c :: nat) \<le> 90
      then char_of ((of_char c :: nat) + 32) else c)"

definition asciiToLower :: "string \<Rightarrow> string" where
  "asciiToLower s = map toLowerChar s"

text \<open>\<open>strings.SplitN(s, "/", 2)\<close> and \<open>strings.Join\<close>.\<close>

definition splitN2 :: "string \<Rightarrow> string list" where
  "splitN2 s =
     (case dropWhile (\<lambda>c. c \<noteq> CHR ''/'') s of
        [] \<Rightarrow> [s]
      | c # after \<Rightarrow> [takeWhile (\<lambda>c. c \<noteq> CHR ''/'') s, after])"

fun strings_Join :: "string list \<Rightarrow> string \<Rightarrow> string" where
  "strings_Join [] sep = []"
| "strings_Join [x] sep = x"
| "strings_Join (x # y # ys) sep = x @ sep @ strings_Join (y # ys) sep"

definition createSpaceError :: Result where
  "createSpaceError =
     Fail (''Branch name appears to contain spaces'' @ nl @ nl @
           ''Branch names cannot contain spaces. Use hyphens instead.'' @ nl @ nl @
           ''Example: feat/my-feature not feat/my feature'')"

text \<open>
  The loop of \<open>extractCheckoutBranchName\<close> over the flags with their index: the whole
  slice, the index \<open>i\<close> and the flags from \<open>i\<close> on. \<open>Flags[i+1]\<close> is a checked read.
\<close>

fun checkoutFlagLoop :: "string list \<Rightarrow> nat \<Rightarrow> string list \<Rightarrow> Panic + string option" where
  "checkoutFlagLoop flags i [] = Inr None"
| "checkoutFlagLoop flags i (flag # rest) =
     (if flag = ''-b'' \<and> i + 1 < length flags then
        (case at flags (i + 1) of
           Inl p \<Rightarrow> Inl p
         | Inr branchName \<Rightarrow> Inr (Some branchName))
      else checkoutFlagLoop flags (i + 1) rest)"

definition extractCheckoutBranchName :: "GitCommand \<Rightarrow> Panic + (string \<times> bool)" where
  "extractCheckoutBranchName gitCmd =
     (case checkoutFlagLoop (Flags gitCmd) 0 (Flags gitCmd) of
        Inl p \<Rightarrow> Inl p
      | Inr (Some branchName) \<Rightarrow> Inr (branchName, length (GitArgs gitCmd) > 0)
      | Inr None \<Rightarrow>
          (if length (GitArgs gitCmd) > 0 then
             (case at (GitArgs gitCmd) 0 of
                Inl p \<Rightarrow> Inl p
              | Inr branchName \<Rightarrow> Inr (branchName, length (GitArgs gitCmd) > 1))
           else Inr ([], False)))"

definition extractBranchCommandName :: "GitCommand \<Rightarrow> Panic + (string \<times> bool)" where
  "extractBranchCommandName gitCmd =
     (if length (GitArgs gitCmd) > 0 then
        (case at (GitArgs gitCmd) 0 of
           Inl p \<Rightarrow> Inl p
         | Inr branchName \<Rightarrow> Inr (branchName, length (GitArgs gitCmd) > 1))
      else Inr ([], False))"

definition extractBranchName :: "GitCommand \<Rightarrow> Panic + (string \<times> bool)" where
  "extractBranchName gitCmd =
     (if Subcommand gitCmd = ''checkout'' then extractCheckoutBranchName gitCmd
      else if Subcommand gitCmd = ''branch'' then extractBranchCommandName gitCmd
      else Inr ([], False))"

text \<open>
  \<open>validateBranchName\<close>. \<open>toLower\<close> is \<open>strings.ToLower\<close>. The list of valid types
  in the last message is built by ranging over a Go map, whose order is not fixed:
  \<open>typeOrder\<close> is the order of that iteration.
\<close>

definition validateBranchName ::
    "(string \<Rightarrow> string) \<Rightarrow> string list \<Rightarrow> string \<Rightarrow> Panic + Result" where
  "validateBranchName toLower typeOrder branchName =
     (if protectedBranches branchName then Inr Pass
      else if branchName \<noteq> toLower branchName then
        Inr (Fail (''Branch name must be lowercase'' @ nl @ nl @
                   ''Branch name '' @ [squote] @ branchName @ [squote] @
                   '' contains uppercase characters'' @ nl @ nl @
                   ''Use: '' @ toLower branchName))
      else if \<not> branchNamePattern branchName then
        Inr (Fail (''Branch name must follow type/description format'' @ nl @ nl @
                   ''Branch name '' @ [squote] @ branchName @ [squote] @
                   '' doesn'' @ [squote] @ ''t match pattern'' @ nl @ nl @
                   ''Expected format: <type>/<description>'' @ nl @
                   ''Valid types: feat, fix, docs, style, refactor, test, chore, ci, build, perf'' @
                   nl @ nl @
                   ''Example: feat/add-user-auth or fix/login-bug-123''))
      else
        (let parts = splitN2 branchName in
         if length parts \<noteq> minBranchParts then
           Inr (Fail (''Branch name must contain type and description'' @ nl @ nl @
                      ''Branch name '' @ [squote] @ branchName @ [squote] @
                      '' is missing type or description'' @ nl @ nl @
                      ''Expected format: <type>/<description>''))
         else
           (case at parts 0 of
              Inl p \<Rightarrow> Inl p
            | Inr branchType \<Rightarrow>
                (if \<not> validBranchTypes branchType then
                   Inr (Fail (''Invalid branch type'' @ nl @ nl @
                              ''Branch type '' @ [squote] @ branchType @ [squote] @
                              '' is not valid'' @ nl @ nl @
                              ''Valid types: '' @ strings_Join typeOrder '', ''))
                 else Inr Pass))))"

text \<open>
  \<open>validateCheckout\<close> and \<open>validateBranch\<close> return a \<open>*Result\<close> that may be nil:
  \<open>None\<close> is nil.
\<close>

definition validateCheckout ::
    "(string \<Rightarrow> string) \<Rightarrow> string list \<Rightarrow> GitCommand \<Rightarrow> Panic + Result option" where
  "validateCheckout toLower typeOrder gitCmd =
     (if \<not> HasFlag gitCmd ''-b'' then Inr None
      else case extractBranchName gitCmd of
        Inl p \<Rightarrow> Inl p
      | Inr (branchName, hasExtra) \<Rightarrow>
          (if branchName = [] then Inr None
           else if hasExtra then Inr (Some createSpaceError)
           else (case validateBranchName toLower typeOrder branchName of
                   Inl p \<Rightarrow> Inl p
                 | Inr r \<Rightarrow> Inr (Some r))))"

definition validateBranch ::
    "(string \<Rightarrow> string) \<Rightarrow> string list \<Rightarrow> GitCommand \<Rightarrow> Panic + Result option" where
  "validateBranch toLower typeOrder gitCmd =
     (if HasFlag gitCmd ''-d'' \<or> HasFlag gitCmd ''-D'' \<or> HasFlag gitCmd ''--delete''
      then Inr None
      else case extractBranchName gitCmd of
        Inl p \<Rightarrow> Inl p
      | Inr (branchName, hasExtra) \<Rightarrow>
          (if branchName = [] then Inr None
           else if hasExtra then Inr (Some createSpaceError)
           else (case validateBranchName toLower typeOrder branchName of
                   Inl p \<Rightarrow> Inl p
                 | Inr r \<Rightarrow> Inr (Some r))))"

definition validateGitCommand ::
    "(string \<Rightarrow> string) \<Rightarrow> string list \<Rightarrow> GitCommand \<Rightarrow> Panic + Result option" where
  "validateGitCommand toLower typeOrder gitCmd =
     (if Subcommand gitCmd = ''checkout'' then validateCheckout toLower typeOrder gitCmd
      else if Subcommand gitCmd = ''branch'' then validateBranch toLower typeOrder gitCmd
      else Inr None)"

fun branchLoop ::
    "(string \<Rightarrow> string) \<Rightarrow> string list \<Rightarrow> Command list \<Rightarrow> Panic + Result" where
  "branchLoop toLower typeOrder [] = Inr Pass"
| "branchLoop toLower typeOrder (cmd # cmds) =
     (if Name cmd \<noteq> ''git'' then branchLoop toLower typeOrder cmds
      else case ParseGitCommand cmd of
        Inl err \<Rightarrow> branchLoop toLower typeOrder cmds
      | Inr gitCmd \<Rightarrow>
          (case validateGitCommand toLower typeOrder gitCmd of
             Inl p \<Rightarrow> Inl p
           | Inr result \<Rightarrow>
               (case result of
                  None \<Rightarrow> branchLoop toLower typeOrder cmds
                | Some r \<Rightarrow> if \<not> Passed r then Inr r else branchLoop toLower typeOrder cmds)))"

definition BranchValidator_Validate ::
    "(string \<Rightarrow> string) \<Rightarrow> string list \<Rightarrow> Context \<Rightarrow> Panic + Result" where
  "BranchValidator_Validate toLower typeOrder ctx =
     (case Parse (Command (ToolInput ctx)) of
        Inl err \<Rightarrow> Inr (Warn (''Failed to parse command: '' @ ErrorText err))
      | Inr parseResult \<Rightarrow> branchLoop toLower typeOrder (Commands parseResult))"


section \<open>Git add validator (internal/validators/git, AddValidator)\<close>

text \<open>
  \<open>strings.TrimSpace(arg) == ""\<close> holds when every rune of the UTF-8 string is Unicode
  white space: the ASCII ones, U+0085 and U+00A0 (two bytes), and U+1680, U+2000 to
  U+200A, U+2028, U+2029, U+202F, U+205F and U+3000 (three bytes).
\<close>

definition asciiSpace :: "char \<Rightarrow> bool" where
  "asciiSpace c = (c = CHR '' '' \<or> (9 \<le> (of_char c :: nat) \<and> (of_char c :: nat) \<le> 13))"

definition spaceRune2 :: "char \<Rightarrow> char \<Rightarrow> bool" where
  "spaceRune2 a b = (a = CHR 0xC2 \<and> (b = CHR 0x85 \<or> b = CHR 0xA0))"

definition spaceRune3 :: "char \<Rightarrow> char \<Rightarrow> char \<Rightarrow> bool" where
  "spaceRune3 a b c =
     ((a = CHR 0xE1 \<and> b = CHR 0x9A \<and> c = CHR 0x80) \<or>
      (a = CHR 0xE2 \<and> b = CHR 0x80 \<and>
         ((128 \<le> (of_char c :: nat) \<and> (of_char c :: nat) \<le> 138) \<or>
          c = CHR 0xA8 \<or> c = CHR 0xA9 \<or> c = CHR 0xAF)) \<or>
      (a = CHR 0xE2 \<and> b = CHR 0x81 \<and> c = CHR 0x9F) \<or>
      (a = CHR 0xE3 \<and> b = CHR 0x80 \<and> c = CHR 0x80))"

fun allSpace :: "string \<Rightarrow> bool" where
  "allSpace [] = True"
| "allSpace (a # s) =
     (if asciiSpace a then allSpace s
      else case s of
        [] \<Rightarrow> False
      | b # s' \<Rightarrow>
          (if spaceRune2 a b then allSpace s'
           else case s' of
             [] \<Rightarrow> False
           | c # s'' \<Rightarrow> spaceRune3 a b c \<and> allSpace s''))"

text \<open>
  \<open>filepath.Clean\<close> for the separator \<open>/\<close>: empty and \<open>.\<close> elements are dropped, an
  inner \<open>..\<close> removes the element before it, a \<open>..\<close> at the start of a rooted path is
  dropped, and the empty result is \<open>.\<close>.
\<close>

fun splitSlash :: "string \<Rightarrow> string list" where
  "splitSlash [] = [[]]"
| "splitSlash (c # cs) =
     (if c = CHR ''/'' then [] # splitSlash cs
      else case splitSlash cs of
        [] \<Rightarrow> [[c]]
      | x # xs \<Rightarrow> (c # x) # xs)"

fun cleanElems :: "bool \<Rightarrow> string list \<Rightarrow> string list \<Rightarrow> string list" where
  "cleanElems rooted out [] = out"
| "cleanElems rooted out (e # es) =
     (if e = [] \<or> e = ''.'' then cleanElems rooted out es
      else if e = ''..'' then
        (if out \<noteq> [] \<and> last out \<noteq> ''..'' then cleanElems rooted (butlast out) es
         else if rooted then cleanElems rooted out es
         else cleanElems rooted (out @ [''..'']) es)
      else cleanElems rooted (out @ [e]) es)"

definition filepath_Clean :: "string \<Rightarrow> string" where
  "filepath_Clean path =
     (case path of
        [] \<Rightarrow> ''.''
      | c # cs \<Rightarrow>
          (let rooted = (c = CHR ''/'');
               out = (if rooted then ''/'' else []) @
                     strings_Join (cleanElems rooted [] (splitSlash path)) ''/''
           in if out = [] then ''.'' else out))"

definition strings_HasPrefix :: "string \<Rightarrow> string \<Rightarrow> bool" where
  "strings_HasPrefix s pre = (take (length pre) s = pre)"

text \<open>The loop of \<open>extractFilePaths\<close>, with its \<open>skipNext\<close> flag and the files so far.\<close>

fun extractFilePathsLoop :: "bool \<Rightarrow> string list \<Rightarrow> string list \<Rightarrow> string list" where
  "extractFilePathsLoop skipNext files [] = files"
| "extractFilePathsLoop skipNext files (arg # args) =
     (if skipNext then extractFilePathsLoop False files args
      else if arg = [] \<or> allSpace arg then extractFilePathsLoop skipNext files args
      else if strings_HasPrefix arg ''-'' then
        (if arg = ''--chmod'' then extractFilePathsLoop True files args
         else extractFilePathsLoop skipNext files args)
      else if arg = ''.'' then extractFilePathsLoop skipNext files args
      else extractFilePathsLoop skipNext (files @ [filepath_Clean arg]) args)"

definition extractFilePaths :: "string list \<Rightarrow> string list" where
  "extractFilePaths args = extractFilePathsLoop False [] args"

text \<open>The loop over the parsed commands that collects the files under \<open>tmp/\<close>.\<close>

fun tmpFilesLoop :: "string list \<Rightarrow> Command list \<Rightarrow> Panic + string list" where
  "tmpFilesLoop tmpFiles [] = Inr tmpFiles"
| "tmpFilesLoop tmpFiles (cmd # cmds) =
     (if Name cmd \<noteq> ''git'' \<or> length (Args cmd) = 0 then tmpFilesLoop tmpFiles cmds
      else case at (Args cmd) 0 of
        Inl p \<Rightarrow> Inl p
      | Inr sub \<Rightarrow>
          (if sub \<noteq> ''add'' then tmpFilesLoop tmpFiles cmds
           else tmpFilesLoop
                  (tmpFiles @
                     filter (\<lambda>file. strings_HasPrefix file ''tmp/'')
                       (extractFilePaths (drop 1 (Args cmd))))
                  cmds))"

definition tmpDetails :: "string list \<Rightarrow> string" where
  "tmpDetails tmpFiles =
     ''Files in tmp/ should be in .gitignore or .git/info/exclude'' @ nl @ nl @
     ''Files being added:'' @ nl @
     concat (map (\<lambda>file. ''  - '' @ file @ nl) tmpFiles) @
     nl @ ''Add tmp/ to .git/info/exclude:'' @ nl @
     ''  echo '' @ [squote] @ ''tmp/'' @ [squote] @ '' >> .git/info/exclude''"

text \<open>
  \<open>AddValidator.Validate\<close>. \<open>getGitRoot\<close> runs \<open>git rev-parse --show-toplevel\<close>; its
  outcome is an input of the model: \<open>None\<close> when the call fails, the path otherwise.
\<close>

definition AddValidator_Validate :: "string option \<Rightarrow> Context \<Rightarrow> Panic + Result" where
  "AddValidator_Validate getGitRoot ctx =
     (case getGitRoot of
        None \<Rightarrow> Inr Pass
      | Some gitRoot \<Rightarrow>
          (case Parse (GetCommand ctx) of
             Inl err \<Rightarrow> Inr (Warn (''Failed to parse command: '' @ ErrorText err))
           | Inr result \<Rightarrow>
               (case tmpFilesLoop [] (Commands result) of
                  Inl p \<Rightarrow> Inl p
                | Inr tmpFiles \<Rightarrow>
                    (if length tmpFiles > 0 then
                       Inr (AddDetail (Fail ''Attempting to add files from tmp/ directory'')
                              ''help'' (tmpDetails tmpFiles))
                     else Inr Pass))))"


section \<open>Concrete command lines\<close>

definition cmdEchoQuoted :: string where
  "cmdEchoQuoted = ''echo '' @ [dquote] @ ''a && b'' @ [dquote]"

definition cmdUnterminated :: string where
  "cmdUnterminated = ''echo '' @ [dquote] @ ''unterminated''"

definition parsedArgs :: "string \<Rightarrow> string list list option" where
  "parsedArgs raw =
     (case Parse raw of Inl err \<Rightarrow> None | Inr r \<Rightarrow> Some (map Args (Commands r)))"


section \<open>Command lines as chains of segments\<close>

text \<open>
  A command line written as segments joined by chaining operators. A word is a sequence
  of adjacent pieces, each bare, single-quoted or double-quoted; a bare piece holds no
  white space, quote, backslash or operator character, a quoted piece holds anything but
  its closing quote (and, in double quotes, a backslash). A segment is one or more
  words, each followed by white space (optional after the last). A link is an operator
  \<open>&&\<close>, \<open>||\<close> or \<open>;\<close>, optional white space, and the segment after it.
\<close>

datatype Piece = Bare string | InSingle string | InDouble string

definition plainChar :: "char \<Rightarrow> bool" where
  "plainChar c = (\<not> isSpace c \<and> c \<noteq> squote \<and> c \<noteq> dquote \<and> c \<noteq> backslash \<and>
     c \<noteq> CHR '';'' \<and> c \<noteq> CHR ''&'' \<and> c \<noteq> CHR ''|'')"

fun pieceOK :: "Piece \<Rightarrow> bool" where
  "pieceOK (Bare w) = (w \<noteq> [] \<and> list_all plainChar w)"
| "pieceOK (InSingle w) = list_all (\<lambda>c. c \<noteq> squote) w"
| "pieceOK (InDouble w) = list_all (\<lambda>c. c \<noteq> dquote \<and> c \<noteq> backslash) w"

fun pieceText :: "Piece \<Rightarrow> string" where
  "pieceText (Bare w) = w"
| "pieceText (InSingle w) = w"
| "pieceText (InDouble w) = w"

fun renderPiece :: "Piece \<Rightarrow> string" where
  "renderPiece (Bare w) = w"
| "renderPiece (InSingle w) = [squote] @ w @ [squote]"
| "renderPiece (InDouble w) = [dquote] @ w @ [dquote]"

type_synonym Word = "Piece list"

definition wordOK :: "Word \<Rightarrow> bool" where
  "wordOK w = (w \<noteq> [] \<and> list_all pieceOK w)"

definition wordText :: "Word \<Rightarrow> string" where
  "wordText w = concat (map pieceText w)"

definition renderWord :: "Word \<Rightarrow> string" where
  "renderWord w = concat (map renderPiece w)"

type_synonym Segment = "(Word \<times> string) list"

fun segmentOK :: "Segment \<Rightarrow> bool" where
  "segmentOK [] = False"
| "segmentOK [(w, ws)] = (wordOK w \<and> list_all isSpace ws)"
| "segmentOK ((w, ws) # others) = (wordOK w \<and> ws \<noteq> [] \<and> list_all isSpace ws \<and> segmentOK others)"

definition renderSegment :: "Segment \<Rightarrow> string" where
  "renderSegment seg = concat (map (\<lambda>(w, ws). renderWord w @ ws) seg)"

definition segmentTokens :: "Segment \<Rightarrow> string list" where
  "segmentTokens seg = map (\<lambda>(w, ws). wordText w) seg"

definition commandOf :: "Segment \<Rightarrow> Command" where
  "commandOf seg = \<lparr>Name = hd (segmentTokens seg), Args = tl (segmentTokens seg)\<rparr>"

definition isChainOp :: "string \<Rightarrow> bool" where
  "isChainOp op = (op = ''&&'' \<or> op = ''||'' \<or> op = '';'')"

type_synonym Link = "string \<times> string \<times> Segment"

definition linkOK :: "Link \<Rightarrow> bool" where
  "linkOK l = (case l of (op, pad, seg) \<Rightarrow> isChainOp op \<and> list_all isSpace pad \<and> segmentOK seg)"

definition renderLink :: "Link \<Rightarrow> string" where
  "renderLink l = (case l of (op, pad, seg) \<Rightarrow> op @ pad @ renderSegment seg)"

definition renderChain :: "string \<Rightarrow> Segment \<Rightarrow> Link list \<Rightarrow> string" where
  "renderChain pad seg links = pad @ renderSegment seg @ concat (map renderLink links)"

definition chainOK :: "string \<Rightarrow> Segment \<Rightarrow> Link list \<Rightarrow> bool" where
  "chainOK pad seg links = (list_all isSpace pad \<and> segmentOK seg \<and> list_all linkOK links)"

definition linkSegment :: "Link \<Rightarrow> Segment" where
  "linkSegment l = (case l of (op, pad, seg) \<Rightarrow> seg)"

text \<open>The text of the token under construction.\<close>

definition curText :: "string option \<Rightarrow> string" where
  "curText cur = (case cur of None \<Rightarrow> [] | Some t \<Rightarrow> t)"

text \<open>
  The line \<open>git fetch upstream && echo "a && b";ls\<close> as a chain of three segments.
\<close>

definition sampleFirst :: Segment where
  "sampleFirst = [([Bare ''git''], '' ''), ([Bare ''fetch''], '' ''), ([Bare ''upstream''], '' '')]"

definition sampleLinks :: "Link list" where
  "sampleLinks =
     [(''&&'', '' '', [([Bare ''echo''], '' ''), ([InDouble ''a && b''], [])]),
      ('';'', [], [([Bare ''ls''], [])])]"


section \<open>Segments of a raw command line\<close>

text \<open>
  The claim's segments, written from its words: the pieces of the raw string between
  the operators that stand outside quotes. The splitter follows the quoting and the
  escapes of the raw string and cuts at \<open>&&\<close>, \<open>||\<close>, \<open>;\<close> and at a single \<open>|\<close>, which
  the specification also makes a boundary; the quotes, escapes and white space of a
  segment stay in its text. \<open>pushChar\<close> adds a character to the segment being read.
\<close>

fun pushChar :: "char \<Rightarrow> string list \<Rightarrow> string list" where
  "pushChar c [] = [[c]]"
| "pushChar c (s # ss) = (c # s) # ss"

fun segments :: "Quoting \<Rightarrow> string \<Rightarrow> string list" where
  "segments m [] = [[]]"
| "segments SingleQuoted (c # cs) =
     (if c = squote then pushChar c (segments Unquoted cs)
      else pushChar c (segments SingleQuoted cs))"
| "segments DoubleQuoted (c # cs) =
     (if c = dquote then pushChar c (segments Unquoted cs)
      else if c = backslash then
        (case cs of
           [] \<Rightarrow> [[c]]
         | d # ds \<Rightarrow> pushChar c (pushChar d (segments DoubleQuoted ds)))
      else pushChar c (segments DoubleQuoted cs))"
| "segments Unquoted (c # cs) =
     (if c = backslash then
        (case cs of
           [] \<Rightarrow> [[c]]
         | d # ds \<Rightarrow> pushChar c (pushChar d (segments Unquoted ds)))
      else if c = squote then pushChar c (segments SingleQuoted cs)
      else if c = dquote then pushChar c (segments DoubleQuoted cs)
      else if c = CHR '';'' then [] # segments Unquoted cs
      else if c = CHR ''&'' \<and> cs \<noteq> [] \<and> hd cs = CHR ''&''
        then [] # segments Unquoted (tl cs)
      else if c = CHR ''|'' then
        (if cs \<noteq> [] \<and> hd cs = CHR ''|''
         then [] # segments Unquoted (tl cs)
         else [] # segments Unquoted cs)
      else pushChar c (segments Unquoted cs))"

definition chainSegments :: "string \<Rightarrow> string list" where
  "chainSegments raw = segments Unquoted raw"

text \<open>The commands that \<open>Parse\<close> returns for one segment on its own.\<close>

definition segmentCommands :: "string \<Rightarrow> Command list" where
  "segmentCommands s = (case Parse s of Inl err \<Rightarrow> [] | Inr r \<Rightarrow> Commands r)"

text \<open>
  The scanner run segment by segment: the state carries over inside the first segment,
  and every later segment starts between tokens with no token read.
\<close>

fun scanSegments :: "Quoting \<Rightarrow> string option \<Rightarrow> string list \<Rightarrow> Command list \<Rightarrow> string list
    \<Rightarrow> ParseError + Command list" where
  "scanSegments m cur toks cmds [] = Inr cmds"
| "scanSegments m cur toks cmds [s] = scan m cur toks cmds s"
| "scanSegments m cur toks cmds (s # t # ss) =
     (case scan m cur toks cmds s of
        Inl err \<Rightarrow> Inl err
      | Inr cmds' \<Rightarrow> scanSegments Unquoted None [] cmds' (t # ss))"

text \<open>
  A segment holds a token when it is not white space only. \<open>noToken\<close> is the same for
  a scanner state in the middle of a segment.
\<close>

definition hasToken :: "string \<Rightarrow> bool" where
  "hasToken s = (\<not> list_all isSpace s)"

definition noToken :: "string option \<Rightarrow> string list \<Rightarrow> string \<Rightarrow> bool" where
  "noToken cur toks s = (toks = [] \<and> cur = None \<and> list_all isSpace s)"

definition cmdEmptyName :: string where
  "cmdEmptyName = ''git checkout -b '' @ [dquote, dquote] @ '' extra''"


section \<open>Properties of the dispatcher and the context\<close>

lemma dispatchLoop_acc:
  "dispatchLoop ctx vs acc = acc @ map (errorOf ctx) (filter (failing ctx) vs)"
  by (induction vs arbitrary: acc) (simp_all add: Let_def errorOf_def failing_def)

lemma ShouldBlock_append:
  "dispatcher_ShouldBlock (xs @ ys) = (dispatcher_ShouldBlock xs \<or> dispatcher_ShouldBlock ys)"
  by (induction xs) simp_all

lemma ShouldBlock_iff:
  "dispatcher_ShouldBlock errors = (\<exists>e \<in> set errors. ErrShouldBlock e)"
  by (induction errors) simp_all

text \<open>
  C1. \<open>ShouldBlock\<close> is true exactly when some element of the sequence has
  \<open>ShouldBlock = true\<close>; it is false on the empty sequence; appending a non-blocking
  error to any sequence leaves the result unchanged.
\<close>

theorem C1_ShouldBlock_any:
  "dispatcher_ShouldBlock errors = (\<exists>e \<in> set errors. ErrShouldBlock e)
   \<and> dispatcher_ShouldBlock [] = False
   \<and> (\<not> ErrShouldBlock e' \<longrightarrow>
        dispatcher_ShouldBlock (errors @ [e']) = dispatcher_ShouldBlock errors)"
  by (simp add: ShouldBlock_iff ShouldBlock_append)

theorem C1_ShouldBlock_any_witness:
  "dispatcher_ShouldBlock (Dispatch sampleRegistry (bashContext ''ls'')) = True
   \<and> \<not> ErrShouldBlock (errorOf (bashContext ''ls'') warner)
   \<and> dispatcher_ShouldBlock
        (Dispatch sampleRegistry (bashContext ''ls'') @ [errorOf (bashContext ''ls'') warner])
       = True"
  using C1_ShouldBlock_any [of "Dispatch sampleRegistry (bashContext ''ls'')"
      "errorOf (bashContext ''ls'') warner"]
  by (simp add: Dispatch_def FindValidators_def applies_def sampleRegistry_def onBash_def
      bashContext_def blocker_def warner_def passer_def errorOf_def PreToolUse_def Bash_def)

text \<open>
  C2. \<open>Dispatch\<close> returns one error for each applicable validator whose result has
  \<open>Passed = false\<close>, in the order of the registry's answer, carrying that result's
  message, details and blocking flag; passing validators contribute nothing; nothing is
  skipped after a blocking failure, so the number of errors is the number of failing
  validators.
\<close>

theorem C2_Dispatch_all_failures:
  "Dispatch registry ctx = map (errorOf ctx) (filter (failing ctx) (FindValidators registry ctx))
   \<and> length (Dispatch registry ctx)
       = length (filter (\<lambda>v. \<not> Passed (Validate v ctx)) (FindValidators registry ctx))
   \<and> map ErrMessage (Dispatch registry ctx)
       = map (\<lambda>v. Message (Validate v ctx)) (filter (failing ctx) (FindValidators registry ctx))
   \<and> map ErrShouldBlock (Dispatch registry ctx)
       = map (\<lambda>v. ShouldBlock (Validate v ctx)) (filter (failing ctx) (FindValidators registry ctx))
   \<and> map ErrDetails (Dispatch registry ctx)
       = map (\<lambda>v. Details (Validate v ctx)) (filter (failing ctx) (FindValidators registry ctx))"
proof -
  have eq: "Dispatch registry ctx
      = map (errorOf ctx) (filter (failing ctx) (FindValidators registry ctx))"
    by (cases "FindValidators registry ctx") (simp_all add: Dispatch_def Let_def dispatchLoop_acc)
  have sel: "ErrMessage \<circ> errorOf ctx = (\<lambda>v. Message (Validate v ctx))"
    "ErrShouldBlock \<circ> errorOf ctx = (\<lambda>v. ShouldBlock (Validate v ctx))"
    "ErrDetails \<circ> errorOf ctx = (\<lambda>v. Details (Validate v ctx))"
    by (simp_all add: fun_eq_iff errorOf_def)
  have flt: "failing ctx = (\<lambda>v. \<not> Passed (Validate v ctx))"
    by (simp add: fun_eq_iff failing_def)
  show ?thesis
    unfolding eq by (simp add: sel) (simp add: flt)
qed

theorem C2_Dispatch_all_failures_witness:
  "map Validator (Dispatch sampleRegistry (bashContext ''ls'')) = [''blocker'', ''warner'']
   \<and> map ErrShouldBlock (Dispatch sampleRegistry (bashContext ''ls'')) = [True, False]
   \<and> map ErrMessage (Dispatch sampleRegistry (bashContext ''ls'')) = [''blocked'', ''warned'']"
  using C2_Dispatch_all_failures [of sampleRegistry "bashContext ''ls''"]
  by (simp add: FindValidators_def applies_def sampleRegistry_def onBash_def failing_def
      bashContext_def blocker_def warner_def passer_def errorOf_def PreToolUse_def Bash_def)

text \<open>
  C3. When the registry yields no applicable validator, \<open>Dispatch\<close> returns the empty
  sequence (its only return value; there is no error value to signal), and
  \<open>ShouldBlock\<close> of that result is false.
\<close>

theorem C3_no_validators_pass:
  "FindValidators registry ctx = [] \<Longrightarrow>
     Dispatch registry ctx = [] \<and> dispatcher_ShouldBlock (Dispatch registry ctx) = False"
  by (simp add: Dispatch_def)

theorem C3_no_validators_pass_witness:
  "FindValidators sampleRegistry (fileContext ''a.txt'' []) = []
   \<and> Dispatch sampleRegistry (fileContext ''a.txt'' []) = []
   \<and> dispatcher_ShouldBlock (Dispatch sampleRegistry (fileContext ''a.txt'' [])) = False"
proof -
  have h: "FindValidators sampleRegistry (fileContext ''a.txt'' []) = []"
    by (simp add: FindValidators_def applies_def sampleRegistry_def onBash_def
        fileContext_def PreToolUse_def Bash_def Write_def)
  show ?thesis using h C3_no_validators_pass [OF h] by simp
qed

text \<open>
  C10. \<open>GetFilePath\<close> returns \<open>FilePath\<close> when it is non-empty and \<open>Path\<close> otherwise;
  the result is empty only when both fields are empty.
\<close>

theorem C10_GetFilePath_prefers_FilePath:
  "(FilePath (ToolInput c) \<noteq> [] \<longrightarrow> GetFilePath c = FilePath (ToolInput c))
   \<and> (FilePath (ToolInput c) = [] \<longrightarrow> GetFilePath c = Path (ToolInput c))
   \<and> (GetFilePath c = [] \<longleftrightarrow> FilePath (ToolInput c) = [] \<and> Path (ToolInput c) = [])"
  by (auto simp add: GetFilePath_def)

theorem C10_GetFilePath_prefers_FilePath_witness:
  "FilePath (ToolInput (fileContext ''a.txt'' ''b.txt'')) \<noteq> []
   \<and> GetFilePath (fileContext ''a.txt'' ''b.txt'') = ''a.txt''"
  using C10_GetFilePath_prefers_FilePath [of "fileContext ''a.txt'' ''b.txt''"]
  by (simp add: fileContext_def emptyInput_def)


section \<open>Properties of the parser model and the git validators\<close>

lemma takesValue_isFlag: "takesValue sub f \<Longrightarrow> isFlag f"
  by (auto simp add: takesValue_def isFlag_def)

lemma walkArgs_snoc_flag:
  "isFlag f \<Longrightarrow>
     walkArgs sub (pre @ [f]) = (fst (walkArgs sub pre) @ [f], snd (walkArgs sub pre))"
proof (induction sub pre rule: walkArgs.induct)
  case (1 sub)
  then show ?case by simp
next
  case (2 sub tok rest)
  show ?case
  proof (cases "isFlag tok")
    case False
    with 2 show ?thesis by (simp add: split_beta)
  next
    case flag: True
    show ?thesis
    proof (cases "takesValue sub tok")
      case False
      with flag 2 show ?thesis by (simp add: split_beta)
    next
      case tv: True
      show ?thesis
      proof (cases rest)
        case Nil
        with flag tv 2 show ?thesis by simp
      next
        case (Cons v rest')
        with flag tv 2 show ?thesis by (simp add: split_beta)
      qed
    qed
  qed
qed

lemma checkoutFlagLoop_total: "\<exists>r. checkoutFlagLoop flags i rest = Inr r"
  by (induction rest arbitrary: i) (simp_all add: at_def)

lemma extractCheckoutBranchName_total: "\<exists>r. extractCheckoutBranchName gitCmd = Inr r"
proof -
  obtain r where r: "checkoutFlagLoop (Flags gitCmd) 0 (Flags gitCmd) = Inr r"
    using checkoutFlagLoop_total by blast
  show ?thesis
  proof (cases r)
    case None
    then show ?thesis
      by (cases "GitArgs gitCmd") (auto simp add: extractCheckoutBranchName_def r at_def)
  next
    case (Some branchName)
    then show ?thesis
      by (simp add: extractCheckoutBranchName_def r)
  qed
qed

text \<open>
  C6. The command parsed from \<open>git checkout -b feat/foo\<close> is \<open>git\<close> with the arguments
  \<open>checkout\<close>, \<open>-b\<close>, \<open>feat/foo\<close>, and the extractor turns it into the subcommand
  \<open>checkout\<close>, the flags \<open>-b\<close>, \<open>feat/foo\<close> and no positional argument.
\<close>

theorem C6_checkout_b_extracted:
  "Parse ''git checkout -b feat/foo''
     = Inr \<lparr>Commands = [\<lparr>Name = ''git'', Args = [''checkout'', ''-b'', ''feat/foo'']\<rparr>]\<rparr>
   \<and> ParseGitCommand \<lparr>Name = ''git'', Args = [''checkout'', ''-b'', ''feat/foo'']\<rparr>
     = Inr \<lparr>Subcommand = ''checkout'', Flags = [''-b'', ''feat/foo''], GitArgs = []\<rparr>"
  by (simp add: Parse_def addChar_def endToken_def endCommand_def isSpace_def squote_def
      dquote_def backslash_def ParseGitCommand_def isFlag_def takesValue_def)

text \<open>
  C8, as the code has it. The command parsed from \<open>echo "a && b"\<close> is the single
  command named \<open>echo\<close> whose arguments are the one token \<open>a && b\<close>: the name is not
  repeated among the arguments.
\<close>

theorem C8_echo_quoted_one_command:
  "Parse cmdEchoQuoted = Inr \<lparr>Commands = [\<lparr>Name = ''echo'', Args = [''a && b'']\<rparr>]\<rparr>"
  by (simp add: cmdEchoQuoted_def Parse_def addChar_def openToken_def endToken_def
      endCommand_def isSpace_def squote_def dquote_def backslash_def)

text \<open>
  C8 as stated fails: the arguments of the parsed command are not \<open>echo\<close>, \<open>a && b\<close>.
\<close>

theorem C8_args_exclude_name:
  "parsedArgs cmdEchoQuoted \<noteq> Some [[''echo'', ''a && b'']]"
  by (simp add: parsedArgs_def cmdEchoQuoted_def Parse_def addChar_def openToken_def
      endToken_def endCommand_def isSpace_def squote_def dquote_def backslash_def)

text \<open>
  C9. When the last token of a git command is a flag that takes a value, the extractor
  succeeds and records that flag as the last entry of the flags, with no value after it
  and the positional arguments unchanged; and \<open>extractCheckoutBranchName\<close>, whose read
  of \<open>Flags[i+1]\<close> is checked in the model, returns a value on every git command.
\<close>

theorem C9_trailing_value_flag_safe:
  "(takesValue sub f \<longrightarrow>
      ParseGitCommand \<lparr>Name = ''git'', Args = sub # pre @ [f]\<rparr>
        = Inr \<lparr>Subcommand = sub, Flags = fst (walkArgs sub pre) @ [f],
               GitArgs = snd (walkArgs sub pre)\<rparr>)
   \<and> (\<exists>r. extractCheckoutBranchName gitCmd = Inr r)"
proof -
  have a: "takesValue sub f \<longrightarrow>
      ParseGitCommand \<lparr>Name = ''git'', Args = sub # pre @ [f]\<rparr>
        = Inr \<lparr>Subcommand = sub, Flags = fst (walkArgs sub pre) @ [f],
               GitArgs = snd (walkArgs sub pre)\<rparr>"
    by (simp add: ParseGitCommand_def walkArgs_snoc_flag takesValue_isFlag)
  from a extractCheckoutBranchName_total [of gitCmd] show ?thesis
    by blast
qed

theorem C9_trailing_value_flag_safe_witness:
  "takesValue ''checkout'' ''-b''
   \<and> ParseGitCommand \<lparr>Name = ''git'', Args = [''checkout'', ''-b'']\<rparr>
       = Inr \<lparr>Subcommand = ''checkout'', Flags = [''-b''], GitArgs = []\<rparr>
   \<and> (\<exists>r. extractCheckoutBranchName
              \<lparr>Subcommand = ''checkout'', Flags = [''-b''], GitArgs = []\<rparr> = Inr r)"
  using C9_trailing_value_flag_safe [of "''checkout''" "''-b''" "[]"
      "\<lparr>Subcommand = ''checkout'', Flags = [''-b''], GitArgs = []\<rparr>"]
  by (simp add: takesValue_def)

text \<open>
  C4, as the code has it. When \<open>Parse\<close> fails on the command, the branch validator
  returns, without a panic, the non-blocking failing result whose message is
  \<open>Failed to parse command:\<close> followed by the error; the add validator returns the same
  result when its git root lookup succeeded, and the passing result when that lookup
  failed, since it returns before parsing.
\<close>

theorem C4_parse_failure_warns:
  "Parse (Command (ToolInput ctx)) = Inl err \<Longrightarrow>
     BranchValidator_Validate toLower typeOrder ctx
       = Inr (Warn (''Failed to parse command: '' @ ErrorText err))
     \<and> AddValidator_Validate (Some gitRoot) ctx
       = Inr (Warn (''Failed to parse command: '' @ ErrorText err))
     \<and> AddValidator_Validate None ctx = Inr Pass
     \<and> Passed (Warn (''Failed to parse command: '' @ ErrorText err)) = False
     \<and> ShouldBlock (Warn (''Failed to parse command: '' @ ErrorText err)) = False
     \<and> Message (Warn (''Failed to parse command: '' @ ErrorText err))
       = ''Failed to parse command: '' @ ErrorText err"
  by (simp add: BranchValidator_Validate_def AddValidator_Validate_def GetCommand_def Warn_def)

lemma parse_cmdUnterminated: "Parse cmdUnterminated = Inl UnterminatedQuote"
  by (simp add: cmdUnterminated_def Parse_def addChar_def openToken_def endToken_def
      endCommand_def isSpace_def squote_def dquote_def backslash_def)

theorem C4_parse_failure_warns_witness:
  "Parse (Command (ToolInput (bashContext cmdUnterminated))) = Inl UnterminatedQuote
   \<and> BranchValidator_Validate asciiToLower validBranchTypeKeys (bashContext cmdUnterminated)
       = Inr (Warn ''Failed to parse command: unterminated quote'')
   \<and> AddValidator_Validate (Some ''/repo'') (bashContext cmdUnterminated)
       = Inr (Warn ''Failed to parse command: unterminated quote'')"
proof -
  have h: "Parse (Command (ToolInput (bashContext cmdUnterminated))) = Inl UnterminatedQuote"
    by (simp add: bashContext_def parse_cmdUnterminated)
  show ?thesis
    using h C4_parse_failure_warns [OF h, of asciiToLower validBranchTypeKeys "''/repo''"] by simp
qed

text \<open>
  C4 as stated fails for the add validator: outside a git repository it passes a
  command on which \<open>Parse\<close> fails.
\<close>

theorem C4_add_passes_outside_repository:
  "Parse (GetCommand (bashContext cmdUnterminated)) = Inl UnterminatedQuote
   \<and> AddValidator_Validate None (bashContext cmdUnterminated) = Inr Pass
   \<and> Passed Pass = True"
  by (simp add: AddValidator_Validate_def GetCommand_def bashContext_def parse_cmdUnterminated
      Pass_def)

text \<open>
  C7, as the code has it. For a command \<open>git checkout -b name extra...\<close> with a
  non-empty name, where the extractor leaves at least one positional argument from the
  tokens after the name, the branch validator returns the failing result of
  \<open>createSpaceError\<close>, whose message begins \<open>Branch name appears to contain spaces\<close>.
\<close>

theorem C7_extra_args_space_error:
  assumes "Parse (Command (ToolInput ctx))
             = Inr \<lparr>Commands = [\<lparr>Name = ''git'', Args = ''checkout'' # ''-b'' # name # extra\<rparr>]\<rparr>"
    and "name \<noteq> []"
    and "snd (walkArgs ''checkout'' extra) \<noteq> []"
  shows "BranchValidator_Validate toLower typeOrder ctx = Inr createSpaceError
         \<and> Passed createSpaceError = False
         \<and> take 37 (Message createSpaceError) = ''Branch name appears to contain spaces''"
proof -
  obtain fs as where w: "walkArgs ''checkout'' extra = (fs, as)"
    by (cases "walkArgs ''checkout'' extra")
  from assms(3) w have as: "as \<noteq> []" by simp
  have g: "ParseGitCommand \<lparr>Name = ''git'', Args = ''checkout'' # ''-b'' # name # extra\<rparr>
      = Inr \<lparr>Subcommand = ''checkout'', Flags = ''-b'' # name # fs, GitArgs = as\<rparr>"
    by (simp add: ParseGitCommand_def isFlag_def takesValue_def w)
  have e: "extractBranchName \<lparr>Subcommand = ''checkout'', Flags = ''-b'' # name # fs, GitArgs = as\<rparr>
      = Inr (name, True)"
    using as by (simp add: extractBranchName_def extractCheckoutBranchName_def at_def)
  have v: "validateGitCommand toLower typeOrder
        \<lparr>Subcommand = ''checkout'', Flags = ''-b'' # name # fs, GitArgs = as\<rparr>
      = Inr (Some createSpaceError)"
    using assms(2)
    by (simp add: validateGitCommand_def validateCheckout_def HasFlag_def e)
  have p: "Passed createSpaceError = False"
    by (simp add: createSpaceError_def Fail_def)
  have m: "take 37 (Message createSpaceError) = ''Branch name appears to contain spaces''"
    by (simp add: createSpaceError_def Fail_def)
  show ?thesis
    by (simp add: BranchValidator_Validate_def assms(1) g v p m)
qed

theorem C7_extra_args_space_error_witness:
  "Parse (Command (ToolInput (bashContext ''git checkout -b feat/add feature'')))
     = Inr \<lparr>Commands =
             [\<lparr>Name = ''git'', Args = ''checkout'' # ''-b'' # ''feat/add'' # [''feature'']\<rparr>]\<rparr>
   \<and> ''feat/add'' \<noteq> []
   \<and> snd (walkArgs ''checkout'' [''feature'']) \<noteq> []
   \<and> BranchValidator_Validate asciiToLower validBranchTypeKeys (bashContext ''git checkout -b feat/add feature'')
       = Inr createSpaceError"
proof -
  have h1: "Parse (Command (ToolInput (bashContext ''git checkout -b feat/add feature'')))
     = Inr \<lparr>Commands =
             [\<lparr>Name = ''git'', Args = ''checkout'' # ''-b'' # ''feat/add'' # [''feature'']\<rparr>]\<rparr>"
    by (simp add: bashContext_def Parse_def addChar_def endToken_def endCommand_def isSpace_def
        squote_def dquote_def backslash_def)
  have h2: "''feat/add'' \<noteq> []" by simp
  have h3: "snd (walkArgs ''checkout'' [''feature'']) \<noteq> []"
    by (simp add: isFlag_def)
  show ?thesis
    using h1 h3 C7_extra_args_space_error [OF h1 h2 h3, of asciiToLower validBranchTypeKeys] by simp
qed

text \<open>
  C7 as stated fails when the name is the empty string: for
  \<open>git checkout -b "" extra\<close> the name read after \<open>-b\<close> is empty,
  \<open>validateCheckout\<close> returns nil, and the validator passes although a positional
  argument remains.
\<close>

theorem C7_empty_name_passes:
  "Parse cmdEmptyName
     = Inr \<lparr>Commands = [\<lparr>Name = ''git'', Args = [''checkout'', ''-b'', [], ''extra'']\<rparr>]\<rparr>
   \<and> snd (walkArgs ''checkout'' [''extra'']) \<noteq> []
   \<and> BranchValidator_Validate asciiToLower validBranchTypeKeys (bashContext cmdEmptyName)
       = Inr Pass
   \<and> Passed Pass = True"
proof -
  have p: "Parse cmdEmptyName
     = Inr \<lparr>Commands = [\<lparr>Name = ''git'', Args = [''checkout'', ''-b'', [], ''extra'']\<rparr>]\<rparr>"
    by (simp add: cmdEmptyName_def Parse_def addChar_def openToken_def endToken_def
        endCommand_def isSpace_def squote_def dquote_def backslash_def)
  have g: "ParseGitCommand \<lparr>Name = ''git'', Args = [''checkout'', ''-b'', [], ''extra'']\<rparr>
      = Inr \<lparr>Subcommand = ''checkout'', Flags = [''-b'', []], GitArgs = [''extra'']\<rparr>"
    by (simp add: ParseGitCommand_def isFlag_def takesValue_def)
  have v: "validateGitCommand asciiToLower validBranchTypeKeys
        \<lparr>Subcommand = ''checkout'', Flags = [''-b'', []], GitArgs = [''extra'']\<rparr> = Inr None"
    by (simp add: validateGitCommand_def validateCheckout_def HasFlag_def extractBranchName_def
        extractCheckoutBranchName_def at_def)
  have a: "snd (walkArgs ''checkout'' [''extra'']) \<noteq> []"
    by (simp add: isFlag_def)
  have r: "BranchValidator_Validate asciiToLower validBranchTypeKeys (bashContext cmdEmptyName)
       = Inr Pass"
    by (simp add: BranchValidator_Validate_def bashContext_def emptyInput_def p g v)
  from p a r show ?thesis by (simp add: Pass_def)
qed


section \<open>The tokenizer on chains of segments\<close>

lemma scan_plain:
  "list_all plainChar w \<Longrightarrow>
     scan Unquoted (Some t) toks cmds (w @ rest) = scan Unquoted (Some (t @ w)) toks cmds rest"
  by (induction w arbitrary: t) (simp_all add: plainChar_def addChar_def)

lemma scan_plain_start:
  "list_all plainChar w \<Longrightarrow> w \<noteq> [] \<Longrightarrow>
     scan Unquoted cur toks cmds (w @ rest) = scan Unquoted (Some (curText cur @ w)) toks cmds rest"
proof (cases w)
  case Nil
  assume "w \<noteq> []" with Nil show ?thesis by simp
next
  case (Cons c cs)
  assume ok: "list_all plainChar w"
  with Cons have c: "plainChar c" and cs: "list_all plainChar cs" by simp_all
  from c have "scan Unquoted cur toks cmds (c # cs @ rest)
      = scan Unquoted (Some (curText cur @ [c])) toks cmds (cs @ rest)"
    by (cases cur) (simp_all add: plainChar_def addChar_def curText_def)
  with scan_plain [OF cs, of "curText cur @ [c]"] Cons show ?thesis by simp
qed

lemma scan_single:
  "list_all (\<lambda>c. c \<noteq> squote) w \<Longrightarrow>
     scan SingleQuoted (Some t) toks cmds (w @ squote # rest)
       = scan Unquoted (Some (t @ w)) toks cmds rest"
  by (induction w arbitrary: t) (simp_all add: addChar_def)

lemma scan_double:
  "list_all (\<lambda>c. c \<noteq> dquote \<and> c \<noteq> backslash) w \<Longrightarrow>
     scan DoubleQuoted (Some t) toks cmds (w @ dquote # rest)
       = scan Unquoted (Some (t @ w)) toks cmds rest"
  by (induction w arbitrary: t) (simp_all add: addChar_def)

lemma quote_chars: "squote \<noteq> backslash" "dquote \<noteq> backslash" "dquote \<noteq> squote"
  "\<not> isSpace squote" "\<not> isSpace dquote"
  by (simp_all add: squote_def dquote_def backslash_def isSpace_def)

lemma scan_piece:
  "pieceOK p \<Longrightarrow>
     scan Unquoted cur toks cmds (renderPiece p @ rest)
       = scan Unquoted (Some (curText cur @ pieceText p)) toks cmds rest"
proof (cases p)
  case (Bare w)
  assume "pieceOK p" with Bare show ?thesis by (simp add: scan_plain_start)
next
  case (InSingle w)
  assume "pieceOK p" with InSingle show ?thesis
    using scan_single [of w "curText cur" toks cmds rest]
    by (cases cur) (simp_all add: quote_chars openToken_def curText_def)
next
  case (InDouble w)
  assume "pieceOK p" with InDouble show ?thesis
    using scan_double [of w "curText cur" toks cmds rest]
    by (cases cur) (simp_all add: quote_chars openToken_def curText_def)
qed

lemma scan_pieces:
  "list_all pieceOK w \<Longrightarrow>
     scan Unquoted (Some t) toks cmds (renderWord w @ rest)
       = scan Unquoted (Some (t @ wordText w)) toks cmds rest"
  by (induction w arbitrary: t) (simp_all add: renderWord_def wordText_def scan_piece curText_def)

lemma scan_word:
  "wordOK w \<Longrightarrow>
     scan Unquoted None toks cmds (renderWord w @ rest)
       = scan Unquoted (Some (wordText w)) toks cmds rest"
proof (cases w)
  case Nil
  assume "wordOK w" with Nil show ?thesis by (simp add: wordOK_def)
next
  case (Cons p ps)
  assume "wordOK w"
  with Cons have p: "pieceOK p" and ps: "list_all pieceOK ps" by (simp_all add: wordOK_def)
  have "scan Unquoted None toks cmds (renderPiece p @ renderWord ps @ rest)
      = scan Unquoted (Some (pieceText p)) toks cmds (renderWord ps @ rest)"
    using scan_piece [OF p, of None] by (simp add: curText_def)
  with scan_pieces [OF ps, of "pieceText p"] Cons show ?thesis
    by (simp add: renderWord_def wordText_def)
qed

lemma scan_spaces:
  "list_all isSpace ws \<Longrightarrow>
     scan Unquoted None toks cmds (ws @ rest) = scan Unquoted None toks cmds rest"
  by (induction ws) (auto simp add: isSpace_def squote_def dquote_def backslash_def endToken_def)

lemma scan_token_spaces:
  "list_all isSpace ws \<Longrightarrow> ws \<noteq> [] \<Longrightarrow>
     scan Unquoted (Some t) toks cmds (ws @ rest) = scan Unquoted None (toks @ [t]) cmds rest"
proof (cases ws)
  case Nil
  assume "ws \<noteq> []" with Nil show ?thesis by simp
next
  case (Cons c cs)
  assume "list_all isSpace ws"
  with Cons have c: "isSpace c" and cs: "list_all isSpace cs" by simp_all
  from c have "scan Unquoted (Some t) toks cmds (c # cs @ rest)
      = scan Unquoted None (toks @ [t]) cmds (cs @ rest)"
    by (auto simp add: isSpace_def squote_def dquote_def backslash_def endToken_def)
  with scan_spaces [OF cs] Cons show ?thesis by simp
qed


lemma scan_op:
  "isChainOp op \<Longrightarrow>
     scan Unquoted cur toks cmds (op @ rest)
       = scan Unquoted None [] (endCommand (endToken cur toks) cmds) rest"
  by (auto simp add: isChainOp_def isSpace_def squote_def dquote_def backslash_def)

lemma scan_close_op:
  assumes "list_all isSpace ws" and "isChainOp op"
  shows "scan Unquoted (Some t) toks cmds (ws @ op @ rest)
       = scan Unquoted None [] (endCommand (toks @ [t]) cmds) rest"
proof (cases "ws = []")
  case True
  with scan_op [OF assms(2), of "Some t" toks cmds rest] show ?thesis
    by (simp add: endToken_def)
next
  case False
  with scan_token_spaces [OF assms(1), of t toks cmds "op @ rest"]
    scan_op [OF assms(2), of None "toks @ [t]" cmds rest]
  show ?thesis by (simp add: endToken_def)
qed

lemma scan_close_end:
  assumes "list_all isSpace ws"
  shows "scan Unquoted (Some t) toks cmds ws = Inr (endCommand (toks @ [t]) cmds)"
proof (cases "ws = []")
  case True
  then show ?thesis by (simp add: endToken_def)
next
  case False
  with scan_token_spaces [OF assms, of t toks cmds "[]"] show ?thesis
    by (simp add: endToken_def)
qed

lemma scan_segment_op:
  "segmentOK seg \<Longrightarrow> isChainOp op \<Longrightarrow>
     scan Unquoted None toks cmds (renderSegment seg @ op @ rest)
       = scan Unquoted None [] (endCommand (toks @ segmentTokens seg) cmds) rest"
proof (induction seg arbitrary: toks rule: segmentOK.induct)
  case 1
  then show ?case by simp
next
  case (2 w ws)
  then show ?case
    by (simp add: renderSegment_def segmentTokens_def scan_word scan_close_op)
next
  case (3 w ws v vs)
  from 3(2) have ok: "wordOK w" "ws \<noteq> []" "list_all isSpace ws" "segmentOK (v # vs)"
    by simp_all
  have "scan Unquoted None toks cmds (renderWord w @ ws @ renderSegment (v # vs) @ op @ rest)
      = scan Unquoted None (toks @ [wordText w]) cmds (renderSegment (v # vs) @ op @ rest)"
    by (simp add: scan_word ok scan_token_spaces)
  with 3(1) [OF ok(4) 3(3), of "toks @ [wordText w]"] show ?case
    by (simp add: renderSegment_def segmentTokens_def)
qed

lemma scan_segment_end:
  "segmentOK seg \<Longrightarrow>
     scan Unquoted None toks cmds (renderSegment seg)
       = Inr (endCommand (toks @ segmentTokens seg) cmds)"
proof (induction seg arbitrary: toks rule: segmentOK.induct)
  case 1
  then show ?case by simp
next
  case (2 w ws)
  then show ?case
    using scan_word [of w toks cmds ws]
    by (simp add: renderSegment_def segmentTokens_def scan_close_end)
next
  case (3 w ws v vs)
  from 3(2) have ok: "wordOK w" "ws \<noteq> []" "list_all isSpace ws" "segmentOK (v # vs)"
    by simp_all
  have "scan Unquoted None toks cmds (renderWord w @ ws @ renderSegment (v # vs))
      = scan Unquoted None (toks @ [wordText w]) cmds (renderSegment (v # vs))"
    by (simp add: scan_word ok scan_token_spaces)
  with 3(1) [OF ok(4), of "toks @ [wordText w]"] show ?case
    by (simp add: renderSegment_def segmentTokens_def)
qed

lemma endCommand_segment:
  "segmentOK seg \<Longrightarrow> endCommand (segmentTokens seg) cmds = cmds @ [commandOf seg]"
  by (cases seg) (simp_all add: endCommand_def segmentTokens_def commandOf_def split_beta)

lemma renderLink_simp: "renderLink (op, pad, seg) = op @ pad @ renderSegment seg"
  by (simp add: renderLink_def)

lemma linkSegment_simp: "linkSegment (op, pad, seg) = seg"
  by (simp add: linkSegment_def)

lemma scan_chain:
  "list_all linkOK links \<Longrightarrow> segmentOK seg \<Longrightarrow>
     scan Unquoted None [] cmds (renderSegment seg @ concat (map renderLink links))
       = Inr (cmds @ commandOf seg # map (\<lambda>l. commandOf (linkSegment l)) links)"
proof (induction links arbitrary: seg cmds)
  case Nil
  then show ?case
    using scan_segment_end [of seg "[]" cmds] by (simp add: endCommand_segment)
next
  case (Cons l links)
  obtain op pad s where l: "l = (op, pad, s)" by (cases l)
  from Cons.prems have lk: "linkOK l" and rest: "list_all linkOK links"
    by simp_all
  from lk l have "isChainOp op \<and> list_all isSpace pad \<and> segmentOK s"
    by (simp add: linkOK_def)
  with rest have ok: "isChainOp op" "list_all isSpace pad" "segmentOK s"
    "list_all linkOK links"
    by simp_all
  have "scan Unquoted None [] cmds
          (renderSegment seg @ op @ pad @ renderSegment s @ concat (map renderLink links))
      = scan Unquoted None [] (cmds @ [commandOf seg])
          (pad @ renderSegment s @ concat (map renderLink links))"
    using scan_segment_op [OF Cons.prems(2) ok(1), of "[]" cmds]
    by (simp add: endCommand_segment Cons.prems(2))
  also have "\<dots> = scan Unquoted None [] (cmds @ [commandOf seg])
          (renderSegment s @ concat (map renderLink links))"
    by (simp add: scan_spaces ok(2))
  also have "\<dots> = Inr ((cmds @ [commandOf seg]) @ commandOf s
                       # map (\<lambda>l. commandOf (linkSegment l)) links)"
    by (rule Cons.IH [OF ok(4) ok(3)])
  finally show ?case
    by (simp add: l renderLink_simp linkSegment_simp)
qed

lemma parse_chain:
  "chainOK pad seg links \<Longrightarrow>
     Parse (renderChain pad seg links)
       = Inr \<lparr>Commands = map commandOf (seg # map linkSegment links)\<rparr>"
  using scan_chain [of links seg "[]"]
  by (simp add: chainOK_def Parse_def renderChain_def scan_spaces comp_def)


section \<open>The tokenizer and the segments of the raw string\<close>

lemma pushChar_not_Nil [simp]: "pushChar c xs \<noteq> []"
  by (cases xs) simp_all

lemma segments_not_Nil [simp]: "segments m raw \<noteq> []"
  by (induction m raw rule: segments.induct) (simp_all split: list.splits)

lemma pushChar_Cons: "pushChar c xs = s # ss \<Longrightarrow> \<exists>s'. s = c # s'"
  by (cases xs) auto

lemma segments_head:
  "segments m cs = s # ss \<Longrightarrow> s \<noteq> [] \<Longrightarrow> cs \<noteq> [] \<and> hd s = hd cs"
proof (cases cs)
  case Nil
  assume "segments m cs = s # ss" "s \<noteq> []"
  with Nil show ?thesis by simp
next
  case (Cons c cs')
  assume a: "segments m cs = s # ss" "s \<noteq> []"
  with Cons show ?thesis
    by (cases m) (auto split: if_splits list.splits dest: pushChar_Cons)
qed

lemma scanSegments_step:
  "scan m cur toks cmds (c # s) = scan m' cur' toks' cmds s \<Longrightarrow>
     scanSegments m cur toks cmds ((c # s) # ss) = scanSegments m' cur' toks' cmds (s # ss)"
  by (cases ss) simp_all

lemma scanSegments_step2:
  "scan m cur toks cmds (c # d # s) = scan m' cur' toks' cmds s \<Longrightarrow>
     scanSegments m cur toks cmds ((c # d # s) # ss) = scanSegments m' cur' toks' cmds (s # ss)"
  by (cases ss) simp_all

lemma scanSegments_split:
  "segs \<noteq> [] \<Longrightarrow>
     scanSegments Unquoted cur toks cmds ([] # segs)
       = scanSegments Unquoted None [] (endCommand (endToken cur toks) cmds) segs"
  by (cases segs) simp_all



lemma special_chars:
  "backslash \<noteq> squote" "backslash \<noteq> dquote" "squote \<noteq> backslash" "dquote \<noteq> backslash"
  "squote \<noteq> dquote" "dquote \<noteq> squote" "\<not> isSpace backslash" "\<not> isSpace squote"
  "\<not> isSpace dquote"
  "backslash \<noteq> CHR '';''" "backslash \<noteq> CHR ''&''" "backslash \<noteq> CHR ''|''"
  "squote \<noteq> CHR '';''" "squote \<noteq> CHR ''&''" "squote \<noteq> CHR ''|''"
  "dquote \<noteq> CHR '';''" "dquote \<noteq> CHR ''&''" "dquote \<noteq> CHR ''|''"
  by (simp_all add: squote_def dquote_def backslash_def isSpace_def)

lemma push_step:
  assumes "segs \<noteq> []"
    and "scan m cur toks cmds (c # hd segs) = scan m' cur' toks' cmds (hd segs)"
  shows "scanSegments m cur toks cmds (pushChar c segs) = scanSegments m' cur' toks' cmds segs"
proof (cases segs)
  case Nil
  with assms(1) show ?thesis by simp
next
  case (Cons s ss)
  with assms(2) show ?thesis by (simp add: scanSegments_step)
qed

lemma push_step2:
  assumes "segs \<noteq> []"
    and "scan m cur toks cmds (c # d # hd segs) = scan m' cur' toks' cmds (hd segs)"
  shows "scanSegments m cur toks cmds (pushChar c (pushChar d segs))
       = scanSegments m' cur' toks' cmds segs"
proof (cases segs)
  case Nil
  with assms(1) show ?thesis by simp
next
  case (Cons s ss)
  with assms(2) show ?thesis by (simp add: scanSegments_step2)
qed

lemma lone_amp_head:
  assumes "\<not> (cs \<noteq> [] \<and> hd cs = CHR ''&'')"
  shows "\<not> (hd (segments m cs) \<noteq> [] \<and> hd (hd (segments m cs)) = CHR ''&'')"
proof -
  obtain s ss where seg: "segments m cs = s # ss"
    by (cases "segments m cs") simp_all
  show ?thesis
  proof (cases "s = []")
    case True
    with seg show ?thesis by simp
  next
    case False
    from segments_head [OF seg False] assms seg show ?thesis by simp
  qed
qed

lemma scan_as_segments:
  "scan m cur toks cmds raw = scanSegments m cur toks cmds (segments m raw)"
proof (induction "length raw" arbitrary: m cur toks cmds raw rule: less_induct)
  case less
  show ?case
  proof (cases raw)
    case Nil
    then show ?thesis by (cases m) simp_all
  next
    case (Cons c cs)
    have IH: "\<And>m' cur' toks' cmds'.
        scan m' cur' toks' cmds' cs = scanSegments m' cur' toks' cmds' (segments m' cs)"
      using less [of cs] Cons by simp
    show ?thesis
    proof (cases m)
      case SingleQuoted
      show ?thesis
      proof (cases "c = squote")
        case True
        have "scanSegments SingleQuoted cur toks cmds (pushChar c (segments Unquoted cs))
            = scanSegments Unquoted cur toks cmds (segments Unquoted cs)"
          by (rule push_step) (simp_all add: True)
        with IH [of Unquoted cur toks cmds] show ?thesis
          by (simp add: Cons SingleQuoted True)
      next
        case False
        have "scanSegments SingleQuoted cur toks cmds (pushChar c (segments SingleQuoted cs))
            = scanSegments SingleQuoted (addChar c cur) toks cmds (segments SingleQuoted cs)"
          by (rule push_step) (simp_all add: False)
        with IH [of SingleQuoted "addChar c cur" toks cmds] show ?thesis
          by (simp add: Cons SingleQuoted False)
      qed
    next
      case DoubleQuoted
      show ?thesis
      proof (cases "c = dquote")
        case True
        have "scanSegments DoubleQuoted cur toks cmds (pushChar c (segments Unquoted cs))
            = scanSegments Unquoted cur toks cmds (segments Unquoted cs)"
          by (rule push_step) (simp_all add: True)
        with IH [of Unquoted cur toks cmds] show ?thesis
          by (simp add: Cons DoubleQuoted True)
      next
        case nq: False
        show ?thesis
        proof (cases "c = backslash")
          case True
          show ?thesis
          proof (cases cs)
            case Nil
            with Cons DoubleQuoted True show ?thesis by (simp add: special_chars)
          next
            case (Cons d ds)
            have IH2: "scan DoubleQuoted (addChar d cur) toks cmds ds
                = scanSegments DoubleQuoted (addChar d cur) toks cmds (segments DoubleQuoted ds)"
              using less [of ds] Cons \<open>raw = c # cs\<close> by simp
            have "scanSegments DoubleQuoted cur toks cmds
                    (pushChar c (pushChar d (segments DoubleQuoted ds)))
                = scanSegments DoubleQuoted (addChar d cur) toks cmds (segments DoubleQuoted ds)"
              by (rule push_step2) (simp_all add: True special_chars)
            with IH2 show ?thesis
              by (simp add: Cons \<open>raw = c # cs\<close> DoubleQuoted True special_chars)
          qed
        next
          case False
          have "scanSegments DoubleQuoted cur toks cmds (pushChar c (segments DoubleQuoted cs))
              = scanSegments DoubleQuoted (addChar c cur) toks cmds (segments DoubleQuoted cs)"
            by (rule push_step) (simp_all add: False nq)
          with IH [of DoubleQuoted "addChar c cur" toks cmds] show ?thesis
            by (simp add: Cons DoubleQuoted False nq)
        qed
      qed
    next
      case Unquoted
      show ?thesis
      proof (cases "c = backslash")
        case True
        show ?thesis
        proof (cases cs)
          case Nil
          with Cons Unquoted True show ?thesis by simp
        next
          case (Cons d ds)
          have IH2: "scan Unquoted (addChar d cur) toks cmds ds
              = scanSegments Unquoted (addChar d cur) toks cmds (segments Unquoted ds)"
            using less [of ds] Cons \<open>raw = c # cs\<close> by simp
          have "scanSegments Unquoted cur toks cmds
                  (pushChar c (pushChar d (segments Unquoted ds)))
              = scanSegments Unquoted (addChar d cur) toks cmds (segments Unquoted ds)"
            by (rule push_step2) (simp_all add: True)
          with IH2 show ?thesis
            by (simp add: Cons \<open>raw = c # cs\<close> Unquoted True)
        qed
      next
        case nb: False
        show ?thesis
        proof (cases "c = squote")
          case True
          have "scanSegments Unquoted cur toks cmds (pushChar c (segments SingleQuoted cs))
              = scanSegments SingleQuoted (openToken cur) toks cmds (segments SingleQuoted cs)"
            by (rule push_step) (simp_all add: True special_chars)
          with IH [of SingleQuoted "openToken cur" toks cmds] show ?thesis
            by (simp add: Cons Unquoted True special_chars)
        next
          case ns: False
          show ?thesis
          proof (cases "c = dquote")
            case True
            have "scanSegments Unquoted cur toks cmds (pushChar c (segments DoubleQuoted cs))
                = scanSegments DoubleQuoted (openToken cur) toks cmds (segments DoubleQuoted cs)"
              by (rule push_step) (simp_all add: True special_chars)
            with IH [of DoubleQuoted "openToken cur" toks cmds] show ?thesis
              by (simp add: Cons Unquoted True special_chars)
          next
            case nd: False
            show ?thesis
            proof (cases "isSpace c")
              case True
              then have nop: "c \<noteq> CHR '';''" "c \<noteq> CHR ''&''" "c \<noteq> CHR ''|''"
                by (auto simp add: isSpace_def)
              have "scanSegments Unquoted cur toks cmds (pushChar c (segments Unquoted cs))
                  = scanSegments Unquoted None (endToken cur toks) cmds (segments Unquoted cs)"
                by (rule push_step) (simp_all add: True nb ns nd)
              with IH [of Unquoted None "endToken cur toks" cmds] show ?thesis
                by (simp add: Cons Unquoted True nb ns nd nop)
            next
              case nsp: False
              show ?thesis
              proof (cases "c = CHR '';''")
                case True
                with IH [of Unquoted None "[]" "endCommand (endToken cur toks) cmds"]
                show ?thesis
                  by (simp add: Cons Unquoted scanSegments_split squote_def dquote_def backslash_def isSpace_def)
              next
                case nsemi: False
                show ?thesis
                proof (cases "c = CHR ''&'' \<and> cs \<noteq> [] \<and> hd cs = CHR ''&''")
                  case True
                  then have len: "length (tl cs) < length raw"
                    using Cons by (cases cs) simp_all
                  from less [OF len, of Unquoted None "[]" "endCommand (endToken cur toks) cmds"]
                    True
                  show ?thesis
                    by (simp add: Cons Unquoted scanSegments_split squote_def dquote_def backslash_def isSpace_def)
                next
                  case namp: False
                  show ?thesis
                  proof (cases "c = CHR ''|''")
                    case True
                    show ?thesis
                    proof (cases "cs \<noteq> [] \<and> hd cs = CHR ''|''")
                      case pp: True
                      then have len: "length (tl cs) < length raw"
                        using Cons by (cases cs) simp_all
                      from less [OF len, of Unquoted None "[]"
                          "endCommand (endToken cur toks) cmds"] True pp
                      show ?thesis
                        by (simp add: Cons Unquoted scanSegments_split squote_def dquote_def backslash_def isSpace_def)
                    next
                      case False
                      with IH [of Unquoted None "[]" "endCommand (endToken cur toks) cmds"] True
                      show ?thesis
                        by (auto simp add: Cons Unquoted scanSegments_split squote_def dquote_def
                            backslash_def isSpace_def)
                    qed
                  next
                    case npipe: False
                    have look: "\<not> (c = CHR ''&'' \<and> hd (segments Unquoted cs) \<noteq> [] \<and>
                        hd (hd (segments Unquoted cs)) = CHR ''&'')"
                      using namp lone_amp_head [of cs Unquoted] by blast
                    have "scanSegments Unquoted cur toks cmds (pushChar c (segments Unquoted cs))
                        = scanSegments Unquoted (addChar c cur) toks cmds (segments Unquoted cs)"
                      using look by (intro push_step) (auto simp add: nb ns nd nsp nsemi npipe)
                    with IH [of Unquoted "addChar c cur" toks cmds] namp show ?thesis
                      by (auto simp add: Cons Unquoted nb ns nd nsp nsemi npipe)
                  qed
                qed
              qed
            qed
          qed
        qed
      qed
    qed
  qed
qed

lemma endCommand_append: "endCommand toks (pre @ cmds) = pre @ endCommand toks cmds"
  by (simp add: endCommand_def split: list.splits)

lemma scan_prepend:
  "scan m cur toks (pre @ cmds) s
     = (case scan m cur toks cmds s of Inl err \<Rightarrow> Inl err | Inr cs \<Rightarrow> Inr (pre @ cs))"
proof (induction m cur toks cmds s arbitrary: pre rule: scan.induct)
  case (1 cur toks cmds)
  show ?case by (simp add: endCommand_append)
next
  case (2 cur toks cmds)
  show ?case by simp
next
  case (3 cur toks cmds)
  show ?case by simp
next
  case (4 cur toks cmds c cs)
  then show ?case by simp
next
  case (5 cur toks cmds c cs)
  then show ?case by (cases cs) simp_all
next
  case (6 cur toks cmds c cs)
  then show ?case
    by (cases cs) (simp_all add: endCommand_append [symmetric])
qed

lemma pushChar_single: "xs \<noteq> [] \<Longrightarrow> (pushChar c xs = [c # cs]) = (xs = [cs])"
  by (cases xs) auto

lemma pushChar2_single:
  "xs \<noteq> [] \<Longrightarrow> (pushChar c (pushChar d xs) = [c # d # ds]) = (xs = [ds])"
  by (cases xs) auto

lemma single_segment_command:
  "segments m s = [s] \<Longrightarrow> (m \<noteq> Unquoted \<longrightarrow> cur \<noteq> None) \<Longrightarrow>
   scan m cur toks cmds s = Inr out \<Longrightarrow>
     \<exists>T. out = endCommand T cmds \<and> (T = [] \<longleftrightarrow> noToken cur toks s)"
proof (induction "length s" arbitrary: m cur toks s rule: less_induct)
  case less
  show ?case
  proof (cases s)
    case Nil
    with less.prems show ?thesis
      by (cases m; cases cur) (auto simp add: endToken_def noToken_def)
  next
    case (Cons c cs)
    note IH = less.hyps [where s = cs, unfolded Cons, simplified]
    show ?thesis
    proof (cases m)
      case SingleQuoted
      with less.prems(2) obtain t where cur: "cur = Some t" by auto
      show ?thesis
      proof (cases "c = squote")
        case True
        from less.prems(1) have seg: "segments Unquoted cs = [cs]"
          by (simp add: Cons SingleQuoted True pushChar_single)
        from less.prems(3) have sc: "scan Unquoted cur toks cmds cs = Inr out"
          by (simp add: Cons SingleQuoted True)
        from IH [OF seg _ sc] show ?thesis
          by (simp add: noToken_def cur)
      next
        case False
        from less.prems(1) have seg: "segments SingleQuoted cs = [cs]"
          by (simp add: Cons SingleQuoted False pushChar_single)
        from less.prems(3) have sc: "scan SingleQuoted (addChar c cur) toks cmds cs = Inr out"
          by (simp add: Cons SingleQuoted False)
        from IH [OF seg _ sc] show ?thesis
          by (simp add: noToken_def cur addChar_def)
      qed
    next
      case DoubleQuoted
      with less.prems(2) obtain t where cur: "cur = Some t" by auto
      show ?thesis
      proof (cases "c = dquote")
        case True
        from less.prems(1) have seg: "segments Unquoted cs = [cs]"
          by (simp add: Cons DoubleQuoted True pushChar_single)
        from less.prems(3) have sc: "scan Unquoted cur toks cmds cs = Inr out"
          by (simp add: Cons DoubleQuoted True)
        from IH [OF seg _ sc] show ?thesis
          by (simp add: noToken_def cur)
      next
        case nq: False
        show ?thesis
        proof (cases "c = backslash")
          case True
          show ?thesis
          proof (cases cs)
            case Nil
            with less.prems(3) Cons DoubleQuoted True show ?thesis
              by (simp add: special_chars)
          next
            case (Cons d ds)
            from less.prems(1) have seg: "segments DoubleQuoted ds = [ds]"
              by (simp add: Cons \<open>s = c # cs\<close> DoubleQuoted True special_chars pushChar2_single)
            from less.prems(3)
            have sc: "scan DoubleQuoted (addChar d cur) toks cmds ds = Inr out"
              by (simp add: Cons \<open>s = c # cs\<close> DoubleQuoted True special_chars)
            have len: "length ds < length s"
              by (simp add: Cons \<open>s = c # cs\<close>)
            from less.hyps [OF len seg _ sc] show ?thesis
              by (simp add: noToken_def cur addChar_def)
          qed
        next
          case False
          from less.prems(1) have seg: "segments DoubleQuoted cs = [cs]"
            by (simp add: Cons DoubleQuoted False nq pushChar_single)
          from less.prems(3) have sc: "scan DoubleQuoted (addChar c cur) toks cmds cs = Inr out"
            by (simp add: Cons DoubleQuoted False nq)
          from IH [OF seg _ sc] show ?thesis
            by (simp add: noToken_def cur addChar_def)
        qed
      qed
    next
      case Unquoted
      show ?thesis
      proof (cases "c = backslash")
        case True
        show ?thesis
        proof (cases cs)
          case Nil
          with less.prems(3) Cons Unquoted True show ?thesis by simp
        next
          case (Cons d ds)
          from less.prems(1) have seg: "segments Unquoted ds = [ds]"
            by (simp add: Cons \<open>s = c # cs\<close> Unquoted True pushChar2_single)
          from less.prems(3)
          have sc: "scan Unquoted (addChar d cur) toks cmds ds = Inr out"
            by (simp add: Cons \<open>s = c # cs\<close> Unquoted True)
          have len: "length ds < length s"
            by (simp add: Cons \<open>s = c # cs\<close>)
          from less.hyps [OF len seg _ sc] show ?thesis
            by (simp add: noToken_def addChar_def \<open>s = c # cs\<close> True special_chars)
        qed
      next
        case nb: False
        show ?thesis
        proof (cases "c = squote")
          case True
          from less.prems(1) have seg: "segments SingleQuoted cs = [cs]"
            by (simp add: Cons Unquoted True special_chars pushChar_single)
          from less.prems(3)
          have sc: "scan SingleQuoted (openToken cur) toks cmds cs = Inr out"
            by (simp add: Cons Unquoted True special_chars)
          from IH [OF seg _ sc] show ?thesis
            by (simp add: noToken_def openToken_def Cons True special_chars)
        next
          case ns: False
          show ?thesis
          proof (cases "c = dquote")
            case True
            from less.prems(1) have seg: "segments DoubleQuoted cs = [cs]"
              by (simp add: Cons Unquoted True special_chars pushChar_single)
            from less.prems(3)
            have sc: "scan DoubleQuoted (openToken cur) toks cmds cs = Inr out"
              by (simp add: Cons Unquoted True special_chars)
            from IH [OF seg _ sc] show ?thesis
              by (simp add: noToken_def openToken_def Cons True special_chars)
          next
            case nd: False
            show ?thesis
            proof (cases "isSpace c")
              case True
              then have nop: "c \<noteq> CHR '';''" "c \<noteq> CHR ''&''" "c \<noteq> CHR ''|''"
                by (auto simp add: isSpace_def)
              from less.prems(1) have seg: "segments Unquoted cs = [cs]"
                by (simp add: Cons Unquoted True nb ns nd nop pushChar_single)
              from less.prems(3)
              have sc: "scan Unquoted None (endToken cur toks) cmds cs = Inr out"
                by (simp add: Cons Unquoted True nb ns nd)
              from IH [OF seg _ sc] show ?thesis
                by (cases cur) (auto simp add: noToken_def endToken_def Cons True)
            next
              case nsp: False
              have split_free: "\<not> (c = CHR '';'' \<or> (c = CHR ''&'' \<and> cs \<noteq> [] \<and> hd cs = CHR ''&'')
                  \<or> c = CHR ''|'')"
                using less.prems(1)
                by (auto simp add: Cons Unquoted nb ns nd split: if_splits)
              from less.prems(1) split_free have seg: "segments Unquoted cs = [cs]"
                by (auto simp add: Cons Unquoted nb ns nd pushChar_single split: if_splits)
              from less.prems(3) split_free
              have sc: "scan Unquoted (addChar c cur) toks cmds cs = Inr out"
                by (auto simp add: Cons Unquoted nb ns nd nsp split: if_splits)
              from IH [OF seg _ sc] show ?thesis
                by (simp add: noToken_def addChar_def Cons nsp)
            qed
          qed
        qed
      qed
    qed
  qed
qed

lemma segments_unsplit:
  "segments m raw = s0 # ss \<Longrightarrow>
     segments m s0 = [s0] \<and> (\<forall>s \<in> set ss. segments Unquoted s = [s])"
proof (induction "length raw" arbitrary: m raw s0 ss rule: less_induct)
  case less
  show ?case
  proof (cases raw)
    case Nil
    with less.prems show ?thesis by auto
  next
    case (Cons c cs)
    let ?goal = "segments m s0 = [s0] \<and> (\<forall>s \<in> set ss. segments Unquoted s = [s])"
    have IH: "\<And>m' s ss'. segments m' cs = s # ss' \<Longrightarrow>
        segments m' s = [s] \<and> (\<forall>x \<in> set ss'. segments Unquoted x = [x])"
      using less.hyps [of cs] Cons by simp
    have push: "\<And>m'. segments m raw = pushChar c (segments m' cs) \<Longrightarrow>
        (\<And>s. segments m' s = [s] \<Longrightarrow> hd (segments m' cs) = s \<Longrightarrow> segments m (c # s) = [c # s])
        \<Longrightarrow> ?goal"
    proof -
      fix m'
      assume eq: "segments m raw = pushChar c (segments m' cs)"
        and st: "\<And>s. segments m' s = [s] \<Longrightarrow> hd (segments m' cs) = s \<Longrightarrow> segments m (c # s) = [c # s]"
      obtain s ss' where seg: "segments m' cs = s # ss'"
        by (cases "segments m' cs") simp_all
      from less.prems eq seg have "s0 = c # s" "ss = ss'" by simp_all
      with IH [OF seg] st [of s] seg show ?goal by simp
    qed
    have split: "\<And>rest. segments m raw = [] # segments Unquoted rest \<Longrightarrow>
        length rest < length raw \<Longrightarrow> ?goal"
    proof -
      fix rest
      assume eq: "segments m raw = [] # segments Unquoted rest" and len: "length rest < length raw"
      obtain s ss' where seg: "segments Unquoted rest = s # ss'"
        by (cases "segments Unquoted rest") simp_all
      from less.prems eq seg have "s0 = []" "ss = s # ss'" by simp_all
      with less.hyps [OF len seg] show ?goal by simp
    qed
    show ?thesis
    proof (cases m)
      case SingleQuoted
      show ?thesis
      proof (cases "c = squote")
        case True
        show ?thesis
          by (rule push [of Unquoted]) (simp_all add: Cons SingleQuoted True)
      next
        case False
        show ?thesis
          by (rule push [of SingleQuoted]) (simp_all add: Cons SingleQuoted False)
      qed
    next
      case DoubleQuoted
      show ?thesis
      proof (cases "c = dquote")
        case True
        show ?thesis
          by (rule push [of Unquoted]) (simp_all add: Cons DoubleQuoted True)
      next
        case nq: False
        show ?thesis
        proof (cases "c = backslash")
          case True
          show ?thesis
          proof (cases cs)
            case Nil
            with less.prems Cons DoubleQuoted True show ?thesis
              by (auto simp add: special_chars)
          next
            case (Cons d ds)
            obtain s ss' where seg: "segments DoubleQuoted ds = s # ss'"
              by (cases "segments DoubleQuoted ds") simp_all
            have len: "length ds < length raw"
              by (simp add: Cons \<open>raw = c # cs\<close>)
            from less.prems seg have "s0 = c # d # s" "ss = ss'"
              by (simp_all add: Cons \<open>raw = c # cs\<close> DoubleQuoted True special_chars)
            with less.hyps [OF len seg] show ?thesis
              by (simp add: DoubleQuoted True special_chars)
          qed
        next
          case False
          show ?thesis
            by (rule push [of DoubleQuoted]) (simp_all add: Cons DoubleQuoted False nq)
        qed
      qed
    next
      case Unquoted
      show ?thesis
      proof (cases "c = backslash")
        case True
        show ?thesis
        proof (cases cs)
          case Nil
          with less.prems Cons Unquoted True show ?thesis by auto
        next
          case (Cons d ds)
          obtain s ss' where seg: "segments Unquoted ds = s # ss'"
            by (cases "segments Unquoted ds") simp_all
          have len: "length ds < length raw"
            by (simp add: Cons \<open>raw = c # cs\<close>)
          from less.prems seg have "s0 = c # d # s" "ss = ss'"
            by (simp_all add: Cons \<open>raw = c # cs\<close> Unquoted True)
          with less.hyps [OF len seg] show ?thesis
            by (simp add: Unquoted True)
        qed
      next
        case nb: False
        show ?thesis
        proof (cases "c = squote")
          case True
          show ?thesis
            by (rule push [of SingleQuoted]) (simp_all add: Cons Unquoted True special_chars)
        next
          case ns: False
          show ?thesis
          proof (cases "c = dquote")
            case True
            show ?thesis
              by (rule push [of DoubleQuoted]) (simp_all add: Cons Unquoted True special_chars)
          next
            case nd: False
            show ?thesis
            proof (cases "c = CHR '';''")
              case True
              show ?thesis
                by (rule split [of cs])
                  (simp_all add: Cons Unquoted True squote_def dquote_def backslash_def)
            next
              case nsemi: False
              show ?thesis
              proof (cases "c = CHR ''&'' \<and> cs \<noteq> [] \<and> hd cs = CHR ''&''")
                case True
                then have len: "length (tl cs) < length raw"
                  using Cons by (cases cs) simp_all
                show ?thesis
                  using True
                  by (intro split [of "tl cs"] len)
                    (simp add: Cons Unquoted squote_def dquote_def backslash_def)
              next
                case namp: False
                show ?thesis
                proof (cases "c = CHR ''|''")
                  case True
                  show ?thesis
                  proof (cases "cs \<noteq> [] \<and> hd cs = CHR ''|''")
                    case pp: True
                    then have len: "length (tl cs) < length raw"
                      using Cons by (cases cs) simp_all
                    show ?thesis
                      using True pp
                      by (intro split [of "tl cs"] len)
                        (simp add: Cons Unquoted squote_def dquote_def backslash_def)
                  next
                    case False
                    show ?thesis
                      using True False
                      by (intro split [of cs])
                        (auto simp add: Cons Unquoted squote_def dquote_def backslash_def)
                  qed
                next
                  case npipe: False
                  show ?thesis
                  proof (rule push [of Unquoted])
                    show "segments m raw = pushChar c (segments Unquoted cs)"
                      using namp by (auto simp add: Cons Unquoted nb ns nd nsemi npipe)
                  next
                    fix s
                    assume s: "segments Unquoted s = [s]" "hd (segments Unquoted cs) = s"
                    have "\<not> (c = CHR ''&'' \<and> s \<noteq> [] \<and> hd s = CHR ''&'')"
                      using namp lone_amp_head [of cs Unquoted] s(2) by blast
                    with s(1) show "segments m (c # s) = [c # s]"
                      by (auto simp add: Unquoted nb ns nd nsemi npipe)
                  qed
                qed
              qed
            qed
          qed
        qed
      qed
    qed
  qed
qed

lemma scanSegments_commands:
  "segs \<noteq> [] \<Longrightarrow> scanSegments Unquoted None [] cmds segs = Inr out \<Longrightarrow>
     out = cmds @ concat (map segmentCommands segs)
     \<and> (\<forall>s \<in> set segs. \<exists>cs. scan Unquoted None [] [] s = Inr cs)"
proof (induction segs arbitrary: cmds out)
  case Nil
  then show ?case by simp
next
  case (Cons s segs)
  have pre: "scan Unquoted None [] cmds s
      = (case scan Unquoted None [] [] s of Inl err \<Rightarrow> Inl err | Inr cs \<Rightarrow> Inr (cmds @ cs))"
    using scan_prepend [of Unquoted None "[]" cmds "[]" s] by simp
  show ?case
  proof (cases segs)
    case Nil
    with Cons.prems pre show ?thesis
      by (auto simp add: segmentCommands_def Parse_def split: sum.splits)
  next
    case (Cons t ts)
    from Cons.prems(2) Cons pre obtain cs where
      cs: "scan Unquoted None [] [] s = Inr cs"
      and rest: "scanSegments Unquoted None [] (cmds @ cs) segs = Inr out"
      by (auto split: sum.splits)
    from Cons.IH [OF _ rest] Cons cs show ?thesis
      by (auto simp add: segmentCommands_def Parse_def)
  qed
qed

lemma segment_count:
  assumes "segments Unquoted s = [s]" and "scan Unquoted None [] [] s = Inr cs"
  shows "length cs = (if hasToken s then 1 else 0)"
proof -
  from single_segment_command [OF assms(1) _ assms(2)]
  obtain T where T: "cs = endCommand T []" "T = [] \<longleftrightarrow> noToken None [] s"
    by auto
  then show ?thesis
    by (cases T) (auto simp add: endCommand_def noToken_def hasToken_def)
qed

lemma length_concat_count:
  "(\<forall>x \<in> set xs. length (f x) = (if P x then 1 else 0)) \<Longrightarrow>
     length (concat (map f xs)) = length (filter P xs)"
  by (induction xs) simp_all

lemma parse_segments:
  assumes "Parse raw = Inr r"
  shows "Commands r = concat (map segmentCommands (chainSegments raw))
    \<and> (\<forall>s \<in> set (chainSegments raw). length (segmentCommands s) = (if hasToken s then 1 else 0))
    \<and> length (Commands r) = length (filter hasToken (chainSegments raw))"
proof -
  from assms obtain out where out: "scan Unquoted None [] [] raw = Inr out" "Commands r = out"
    by (auto simp add: Parse_def split: sum.splits)
  from out(1) have sg: "scanSegments Unquoted None [] [] (segments Unquoted raw) = Inr out"
    by (simp add: scan_as_segments [symmetric])
  from scanSegments_commands [OF _ sg]
  have c: "out = concat (map segmentCommands (segments Unquoted raw))"
    and ok: "\<forall>s \<in> set (segments Unquoted raw). \<exists>cs. scan Unquoted None [] [] s = Inr cs"
    by simp_all
  obtain s0 ss where seg: "segments Unquoted raw = s0 # ss"
    by (cases "segments Unquoted raw") simp_all
  from segments_unsplit [OF seg] seg
  have un: "\<forall>s \<in> set (segments Unquoted raw). segments Unquoted s = [s]"
    by simp
  have cnt: "\<forall>s \<in> set (segments Unquoted raw).
      length (segmentCommands s) = (if hasToken s then 1 else 0)"
  proof
    fix s
    assume s: "s \<in> set (segments Unquoted raw)"
    with ok obtain cs where cs: "scan Unquoted None [] [] s = Inr cs" by blast
    from s un have "segments Unquoted s = [s]" by blast
    from segment_count [OF this cs] cs show
      "length (segmentCommands s) = (if hasToken s then 1 else 0)"
      by (simp add: segmentCommands_def Parse_def)
  qed
  from length_concat_count [OF cnt] c out(2) cnt show ?thesis
    by (simp add: chainSegments_def)
qed

text \<open>
  C5, as the tokenizer has it. Whenever \<open>Parse\<close> succeeds, its commands are those of the
  segments between the unquoted operators \<open>&&\<close>, \<open>||\<close>, \<open>;\<close> and \<open>|\<close>, taken in the order
  of the raw string: a segment that holds a token gives exactly one command, a segment
  of white space only gives none, so there are as many commands as segments with a
  token. On a line of words joined by \<open>&&\<close>, \<open>||\<close> or \<open>;\<close> the commands are the
  segments' words with their quotes removed; operator characters inside a quoted piece
  are part of that word and split nothing.
\<close>

theorem C5_one_command_per_token_segment:
  "(Parse raw = Inr r \<longrightarrow>
      Commands r = concat (map segmentCommands (chainSegments raw))
      \<and> (\<forall>s \<in> set (chainSegments raw).
            length (segmentCommands s) = (if hasToken s then 1 else 0))
      \<and> length (Commands r) = length (filter hasToken (chainSegments raw)))
   \<and> (chainOK pad seg links \<longrightarrow>
        Parse (renderChain pad seg links)
          = Inr \<lparr>Commands = map commandOf (seg # map linkSegment links)\<rparr>)"
  using parse_segments [of raw r] parse_chain [of pad seg links] by blast

lemma sample_line:
  "renderChain [] sampleFirst sampleLinks
     = ''git fetch upstream && echo '' @ [dquote] @ ''a && b'' @ [dquote] @ '';ls''"
  by (simp add: renderChain_def renderSegment_def renderLink_def renderWord_def
      sampleFirst_def sampleLinks_def)

lemma sample_chainOK: "chainOK [] sampleFirst sampleLinks"
  by (simp add: chainOK_def sampleFirst_def sampleLinks_def linkOK_def wordOK_def
      plainChar_def isSpace_def isChainOp_def squote_def dquote_def backslash_def)

lemma sample_commands:
  "map commandOf (sampleFirst # map linkSegment sampleLinks)
     = [\<lparr>Name = ''git'', Args = [''fetch'', ''upstream'']\<rparr>,
        \<lparr>Name = ''echo'', Args = [''a && b'']\<rparr>,
        \<lparr>Name = ''ls'', Args = []\<rparr>]"
  by (simp add: commandOf_def segmentTokens_def wordText_def linkSegment_def
      sampleFirst_def sampleLinks_def)

lemma sample_segments:
  "chainSegments (renderChain [] sampleFirst sampleLinks)
     = [''git fetch upstream '', '' echo '' @ [dquote] @ ''a && b'' @ [dquote], ''ls'']"
  by (simp add: sample_line chainSegments_def squote_def dquote_def backslash_def)

theorem C5_one_command_per_token_segment_witness:
  "chainOK [] sampleFirst sampleLinks
   \<and> Parse (renderChain [] sampleFirst sampleLinks)
       = Inr \<lparr>Commands =
               [\<lparr>Name = ''git'', Args = [''fetch'', ''upstream'']\<rparr>,
                \<lparr>Name = ''echo'', Args = [''a && b'']\<rparr>,
                \<lparr>Name = ''ls'', Args = []\<rparr>]\<rparr>
   \<and> chainSegments (renderChain [] sampleFirst sampleLinks)
       = [''git fetch upstream '', '' echo '' @ [dquote] @ ''a && b'' @ [dquote], ''ls'']
   \<and> length (filter hasToken (chainSegments (renderChain [] sampleFirst sampleLinks))) = 3"
proof -
  let ?raw = "renderChain [] sampleFirst sampleLinks"
  let ?r = "\<lparr>Commands = map commandOf (sampleFirst # map linkSegment sampleLinks)\<rparr>"
  note inst = C5_one_command_per_token_segment [of ?raw ?r "[]" sampleFirst sampleLinks]
  from inst sample_chainOK have p: "Parse ?raw = Inr ?r" by blast
  with inst have "length (Commands ?r) = length (filter hasToken (chainSegments ?raw))"
    by blast
  then have n: "length (filter hasToken (chainSegments ?raw)) = 3"
    by (simp only: sample_commands) simp
  from p have p': "Parse ?raw
       = Inr \<lparr>Commands =
               [\<lparr>Name = ''git'', Args = [''fetch'', ''upstream'']\<rparr>,
                \<lparr>Name = ''echo'', Args = [''a && b'']\<rparr>,
                \<lparr>Name = ''ls'', Args = []\<rparr>]\<rparr>"
    by (simp only: sample_commands)
  from sample_chainOK p' sample_segments n show ?thesis by blast
qed

text \<open>
  C5 as stated fails: \<open>ls;\<close> has two segments around its \<open>;\<close> and one command, since
  the segment after the \<open>;\<close> holds no token; \<open>a | b && c\<close> has three commands, since a
  single \<open>|\<close> is a boundary too; and a line with an unterminated quote after its
  operator gives an error and no command.
\<close>

theorem C5_empty_segment_no_command:
  "chainSegments ''ls;'' = [''ls'', []]
   \<and> Parse ''ls;'' = Inr \<lparr>Commands = [\<lparr>Name = ''ls'', Args = []\<rparr>]\<rparr>
   \<and> Parse ''a | b && c''
       = Inr \<lparr>Commands = [\<lparr>Name = ''a'', Args = []\<rparr>, \<lparr>Name = ''b'', Args = []\<rparr>,
                           \<lparr>Name = ''c'', Args = []\<rparr>]\<rparr>
   \<and> Parse (''a; '' @ [dquote] @ ''b'') = Inl UnterminatedQuote"
  by (simp add: chainSegments_def Parse_def addChar_def openToken_def endToken_def
      endCommand_def isSpace_def squote_def dquote_def backslash_def)

end
